theory Spec2Isabelle
  imports Main "HOL-Library.AList"
begin

section \<open>Overview\<close>

text \<open>
  This theory embeds the card store and the upload ingestion of \<^verbatim>\<open>app_v1.py\<close>:
  \<^verbatim>\<open>sanitize_id\<close>, \<^verbatim>\<open>allowed_file\<close>, \<^verbatim>\<open>unique_filename\<close>,
  \<^verbatim>\<open>load_cards\<close>, \<^verbatim>\<open>append_card\<close> and the POST branch of
  \<^verbatim>\<open>admin_new\<close>. Routing, templates, the session and the password check are left
  out. The library functions the code calls are modelled beside it, each from its
  documented behaviour: the \<^verbatim>\<open>str\<close> methods, \<^verbatim>\<open>os.path\<close>,
  \<^verbatim>\<open>json.dumps\<close> and \<^verbatim>\<open>json.loads\<close>, and Werkzeug's
  \<^verbatim>\<open>secure_filename\<close>.

  What the model fixes:
  \<^item> the platform is POSIX (the separator is \<open>/\<close>, a written line feed stays a line
    feed);
  \<^item> a string holds code points up to U+00FF, one per \<^typ>\<open>char\<close>;
  \<^item> the log file is its decoded text; a file that is not valid UTF-8 is not represented;
  \<^item> execution is sequential, so the file lock around the log is always free and is left
    out together with its side-car file;
  \<^item> an operation fails only for a reason visible in the modelled state (a directory where
    a file is expected, a file where a directory is expected); a full disk or a missing
    permission is not represented.
\<close>

section \<open>Python strings\<close>

text \<open>
  A Python \<^verbatim>\<open>str\<close> is a sequence of code points. It is modelled as a \<^typ>\<open>string\<close>
  whose characters are the code points U+0000 to U+00FF, so that \<^const>\<open>length\<close> counts
  what \<^verbatim>\<open>len\<close> counts. On this range \<^verbatim>\<open>str.lower\<close> and
  \<^verbatim>\<open>str.isspace\<close> are the tables below.
\<close>

definition py_ord :: "char \<Rightarrow> nat" where
  "py_ord c = of_char c"

definition py_lower_char :: "char \<Rightarrow> char" where
  "py_lower_char c =
     (let n = py_ord c in
      if (65 \<le> n \<and> n \<le> 90) \<or> (192 \<le> n \<and> n \<le> 222 \<and> n \<noteq> 215)
      then char_of (n + 32) else c)"

definition py_lower :: "string \<Rightarrow> string" where
  "py_lower s = map py_lower_char s"

definition py_isspace :: "char \<Rightarrow> bool" where
  "py_isspace c =
     (let n = py_ord c in
      (9 \<le> n \<and> n \<le> 13) \<or> (28 \<le> n \<and> n \<le> 32) \<or> n = 133 \<or> n = 160)"

definition lstrip :: "string \<Rightarrow> string" where
  "lstrip s = dropWhile py_isspace s"

definition rstrip :: "string \<Rightarrow> string" where
  "rstrip s = rev (dropWhile py_isspace (rev s))"

definition strip :: "string \<Rightarrow> string" where
  "strip s = rstrip (lstrip s)"

definition after_last_dot :: "string \<Rightarrow> string" where
  "after_last_dot s = rev (takeWhile (\<lambda>c. c \<noteq> CHR ''.'') (rev s))"

definition rpartition_dot :: "string \<Rightarrow> string \<times> string \<times> string" where
  "rpartition_dot s =
     (if CHR ''.'' \<in> set s
      then (rev (tl (dropWhile (\<lambda>c. c \<noteq> CHR ''.'') (rev s))), ''.'', after_last_dot s)
      else ([], [], s))"

definition digit_char :: "nat \<Rightarrow> char" where
  "digit_char d = char_of (48 + d)"

fun py_str_nat :: "nat \<Rightarrow> string" where
  "py_str_nat n =
     (if n < 10 then [digit_char n] else py_str_nat (n div 10) @ [digit_char (n mod 10)])"

declare py_str_nat.simps [simp del]

definition is_digit :: "char \<Rightarrow> bool" where
  "is_digit c = (48 \<le> py_ord c \<and> py_ord c \<le> 57)"

definition digit_val :: "char \<Rightarrow> nat" where
  "digit_val c = py_ord c - 48"

definition nat_of_digits :: "string \<Rightarrow> nat" where
  "nat_of_digits ds = foldl (\<lambda>a c. 10 * a + digit_val c) 0 ds"

section \<open>Identifier sanitizer\<close>

text \<open>
  \<^verbatim>\<open>sanitize_id\<close> of the source. The empty string is the rejection value: the
  caller tests \<^verbatim>\<open>if not safe_card: abort(404)\<close>.
\<close>

definition sanitize_id :: "string \<Rightarrow> string" where
  "sanitize_id v =
     (if v = [] then []
      else let v' = py_lower v in
        if (\<forall>c\<in>set v'. c \<in> set ''0123456789abcdef'') \<and> 8 \<le> length v' \<and> length v' \<le> 32
        then v' else [])"

section \<open>File system\<close>

text \<open>
  The disk is a finite table from paths to file contents and a list of directories. Paths
  are compared as strings. \<^verbatim>\<open>os.path.exists\<close> holds of a path that names a file
  or a directory; \<^verbatim>\<open>os.path.join\<close> is the POSIX one for two components.
\<close>

datatype error = IsADirectoryError | FileExistsError | FileNotFoundError

record fs =
  files :: "(string \<times> string) list"
  dirs :: "string list"

definition path_exists :: "fs \<Rightarrow> string \<Rightarrow> bool" where
  "path_exists s p = (p \<in> fst ` set (files s) \<or> p \<in> set (dirs s))"

definition os_path_join :: "string \<Rightarrow> string \<Rightarrow> string" where
  "os_path_join a b =
     (if b \<noteq> [] \<and> hd b = CHR ''/'' then b
      else if a = [] \<or> last a = CHR ''/'' then a @ b
      else a @ ''/'' @ b)"

subsection \<open>unique_filename\<close>

text \<open>
  The \<^verbatim>\<open>while\<close> loop of \<^verbatim>\<open>unique_filename\<close> tries the name itself and
  then \<^verbatim>\<open>base_2.ext\<close>, \<^verbatim>\<open>base_3.ext\<close>, and so on. It is the recursive
  function \<open>unique_loop\<close>; it terminates because the numbered names are pairwise
  distinct (decimal numerals are read back by \<^const>\<open>nat_of_digits\<close>) and only
  finitely many paths exist. The lemmas before the function are what its termination proof
  needs.
\<close>

definition numbered :: "string \<Rightarrow> string \<Rightarrow> nat \<Rightarrow> string" where
  "numbered base ext i =
     (if ext \<noteq> [] then base @ ''_'' @ py_str_nat i @ ''.'' @ ext
      else base @ ''_'' @ py_str_nat i)"

lemma py_ord_char_of: "n < 256 \<Longrightarrow> py_ord (char_of n) = n"
  unfolding py_ord_def by simp

lemma digit_val_digit_char: "d < 10 \<Longrightarrow> digit_val (digit_char d) = d"
  by (simp add: digit_val_def digit_char_def py_ord_char_of)

lemma nat_of_digits_snoc: "nat_of_digits (ds @ [c]) = 10 * nat_of_digits ds + digit_val c"
  by (simp add: nat_of_digits_def)

lemma nat_of_digits_str: "nat_of_digits (py_str_nat n) = n"
proof (induction n rule: py_str_nat.induct)
  case (1 n)
  show ?case
  proof (cases "n < 10")
    case True
    then show ?thesis
      by (simp add: py_str_nat.simps[of n] nat_of_digits_def digit_val_digit_char)
  next
    case False
    then show ?thesis
      using 1 by (simp add: py_str_nat.simps[of n] nat_of_digits_snoc digit_val_digit_char)
  qed
qed

lemma py_str_nat_inj: "py_str_nat m = py_str_nat n \<Longrightarrow> m = n"
  by (metis nat_of_digits_str)

lemma numbered_inj: "numbered base ext i = numbered base ext j \<Longrightarrow> i = j"
  by (auto simp: numbered_def dest: py_str_nat_inj split: if_splits)

lemma numbered_absolute:
  "(numbered base ext i \<noteq> [] \<and> hd (numbered base ext i) = CHR ''/'') \<longleftrightarrow>
   (base \<noteq> [] \<and> hd base = CHR ''/'')"
  by (cases base) (simp_all add: numbered_def)

lemma os_path_join_inj:
  assumes "os_path_join a b = os_path_join a b'"
    and "(b \<noteq> [] \<and> hd b = CHR ''/'') \<longleftrightarrow> (b' \<noteq> [] \<and> hd b' = CHR ''/'')"
  shows "b = b'"
  using assms by (auto simp: os_path_join_def split: if_splits)

lemma join_numbered_inj:
  "os_path_join folder (numbered base ext i) = os_path_join folder (numbered base ext j) \<Longrightarrow> i = j"
  by (rule numbered_inj, erule os_path_join_inj) (simp only: numbered_absolute)

definition taken :: "fs \<Rightarrow> string \<Rightarrow> string \<Rightarrow> string \<Rightarrow> nat \<Rightarrow> nat set" where
  "taken s folder base ext i =
     {j. i \<le> j \<and> path_exists s (os_path_join folder (numbered base ext j))}"

lemma finite_existing: "finite {p. path_exists s p}"
proof -
  have "{p. path_exists s p} = fst ` set (files s) \<union> set (dirs s)"
    by (auto simp: path_exists_def)
  then show ?thesis by simp
qed

lemma finite_taken: "finite (taken s folder base ext i)"
proof -
  let ?f = "\<lambda>j. os_path_join folder (numbered base ext j)"
  have "inj ?f"
    by (rule injI) (rule join_numbered_inj)
  then have "finite (?f -` {p. path_exists s p})"
    by (intro finite_vimageI finite_existing)
  moreover have "taken s folder base ext i \<subseteq> ?f -` {p. path_exists s p}"
    by (auto simp: taken_def)
  ultimately show ?thesis
    by (rule rev_finite_subset)
qed

lemma taken_Suc:
  "taken s folder base ext (Suc i) = taken s folder base ext i - {i}"
  by (auto simp: taken_def)

function unique_loop :: "fs \<Rightarrow> string \<Rightarrow> string \<Rightarrow> string \<Rightarrow> string \<Rightarrow> nat \<Rightarrow> string" where
  "unique_loop s folder base ext candidate i =
     (if path_exists s (os_path_join folder candidate)
      then unique_loop s folder base ext (numbered base ext i) (i + 1)
      else candidate)"
  by pat_completeness auto

termination
proof (relation "measure (\<lambda>(s, folder, base, ext, candidate, i).
          2 * card (taken s folder base ext i) +
          (if path_exists s (os_path_join folder candidate) then 1 else 0))", goal_cases)
  case 1
  show ?case by simp
next
  case (2 s folder base ext candidate i)
  show ?case
  proof (cases "path_exists s (os_path_join folder (numbered base ext i))")
    case True
    then have "i \<in> taken s folder base ext i"
      by (simp add: taken_def)
    then have "card (taken s folder base ext (Suc i)) < card (taken s folder base ext i)"
      unfolding taken_Suc by (rule card_Diff1_less[OF finite_taken])
    with 2 True show ?thesis by simp
  next
    case False
    then have "taken s folder base ext (Suc i) = taken s folder base ext i"
      unfolding taken_Suc by (simp add: taken_def)
    with 2 False show ?thesis by simp
  qed
qed

declare unique_loop.simps [simp del]

definition unique_filename :: "fs \<Rightarrow> string \<Rightarrow> string \<Rightarrow> string" where
  "unique_filename s folder filename =
     (let (base, dot, ext) = rpartition_dot filename;
          (base, ext) = (if dot = [] then (filename, []) else (base, ext))
      in unique_loop s folder base ext filename 2)"

section \<open>JSON\<close>

text \<open>
  The values \<^verbatim>\<open>json.loads\<close> returns and \<^verbatim>\<open>json.dumps\<close> accepts:
  \<^verbatim>\<open>None\<close>, booleans, integers, floats, strings, lists, and dictionaries with string
  keys in insertion order. A float is kept as the text of its literal, since its value is a
  binary floating-point number; nothing below depends on the digits of a float.
\<close>

abbreviation DQ :: char where "DQ \<equiv> CHR 0x22"

abbreviation BSL :: char where "BSL \<equiv> CHR 0x5C"

abbreviation LF :: char where "LF \<equiv> CHR 0x0A"

abbreviation CR :: char where "CR \<equiv> CHR 0x0D"

abbreviation TAB :: char where "TAB \<equiv> CHR 0x09"

datatype json =
    JNull
  | JBool bool
  | JInt int
  | JFloat string
  | JStr string
  | JArr "json list"
  | JObj "(string \<times> json) list"

subsection \<open>Encoder\<close>

text \<open>
  \<^verbatim>\<open>json.dumps(card, ensure_ascii=False)\<close> with the default separators
  \<^verbatim>\<open>", "\<close> and \<^verbatim>\<open>": "\<close>. In a string the quote, the backslash and the
  characters below U+0020 are escaped and every other character is written as it is.
\<close>

definition hex_digit :: "nat \<Rightarrow> char" where
  "hex_digit d = (if d < 10 then char_of (48 + d) else char_of (87 + d))"

definition escape_char :: "char \<Rightarrow> string" where
  "escape_char c =
     (if c = DQ then [BSL, DQ]
      else if c = BSL then [BSL, BSL]
      else if c = LF then [BSL, CHR ''n'']
      else if c = CR then [BSL, CHR ''r'']
      else if c = TAB then [BSL, CHR ''t'']
      else if c = CHR 0x08 then [BSL, CHR ''b'']
      else if c = CHR 0x0C then [BSL, CHR ''f'']
      else if py_ord c < 32
        then [BSL, CHR ''u'', CHR ''0'', CHR ''0'', hex_digit (py_ord c div 16), hex_digit (py_ord c mod 16)]
      else [c])"

definition encode_basestring :: "string \<Rightarrow> string" where
  "encode_basestring s = DQ # concat (map escape_char s) @ [DQ]"

definition py_str_int :: "int \<Rightarrow> string" where
  "py_str_int i = (if i < 0 then CHR ''-'' # py_str_nat (nat (- i)) else py_str_nat (nat i))"

fun py_join :: "string \<Rightarrow> string list \<Rightarrow> string" where
  "py_join sep [] = []"
| "py_join sep [x] = x"
| "py_join sep (x # y # xs) = x @ sep @ py_join sep (y # xs)"

fun json_dumps :: "json \<Rightarrow> string" where
  "json_dumps JNull = ''null''"
| "json_dumps (JBool b) = (if b then ''true'' else ''false'')"
| "json_dumps (JInt i) = py_str_int i"
| "json_dumps (JFloat lit) = lit"
| "json_dumps (JStr s) = encode_basestring s"
| "json_dumps (JArr vs) = ''['' @ py_join '', '' (map json_dumps vs) @ '']''"
| "json_dumps (JObj kvs) =
     ''{'' @ py_join '', '' (map (\<lambda>(k, v). encode_basestring k @ '': '' @ json_dumps v) kvs) @ ''}''"

subsection \<open>Decoder\<close>

text \<open>
  \<^verbatim>\<open>json.loads\<close> as the scanner of the \<^verbatim>\<open>json\<close> module: \<open>None\<close>
  stands for the exception it raises. The scanner recurses on the nesting of the text; the
  recursion is bounded by a fuel argument, and \<open>json_loads\<close> supplies more fuel than any
  text of that length can use (lemma \<open>fuel_enough\<close> below), so the bound is never what
  makes a text fail. The interpreter's own recursion limit is not modelled. An escape
  \<^verbatim>\<open>\uXXXX\<close> above U+00FF denotes a character these strings cannot hold and is
  refused, the one point where the model is stricter than the library.
\<close>

definition json_ws :: "char \<Rightarrow> bool" where
  "json_ws c = (c = CHR '' '' \<or> c = TAB \<or> c = LF \<or> c = CR)"

definition skip_ws :: "string \<Rightarrow> string" where
  "skip_ws s = dropWhile json_ws s"

definition hex_val :: "char \<Rightarrow> nat option" where
  "hex_val c =
     (let n = py_ord c in
      if 48 \<le> n \<and> n \<le> 57 then Some (n - 48)
      else if 97 \<le> n \<and> n \<le> 102 then Some (n - 87)
      else if 65 \<le> n \<and> n \<le> 70 then Some (n - 55)
      else None)"

definition decode_uXXXX :: "string \<Rightarrow> nat option" where
  "decode_uXXXX esc =
     (case map hex_val esc of
        [Some a, Some b, Some c, Some d] \<Rightarrow> Some (((a * 16 + b) * 16 + c) * 16 + d)
      | _ \<Rightarrow> None)"

definition backslash :: "char \<Rightarrow> char option" where
  "backslash e =
     (if e = DQ then Some DQ
      else if e = BSL then Some BSL
      else if e = CHR ''/'' then Some (CHR ''/'')
      else if e = CHR ''b'' then Some (CHR 0x08)
      else if e = CHR ''f'' then Some (CHR 0x0C)
      else if e = CHR ''n'' then Some LF
      else if e = CHR ''r'' then Some CR
      else if e = CHR ''t'' then Some TAB
      else None)"

fun scanstring :: "string \<Rightarrow> (string \<times> string) option" where
  "scanstring [] = None"
| "scanstring (c # s) =
     (if c = DQ then Some ([], s)
      else if c = BSL then
        (case s of
           [] \<Rightarrow> None
         | e # s' \<Rightarrow>
             if e = CHR ''u'' then
               (case decode_uXXXX (take 4 s') of
                  None \<Rightarrow> None
                | Some uni \<Rightarrow>
                    if uni < 256
                    then map_option (\<lambda>(str, r). (char_of uni # str, r)) (scanstring (drop 4 s'))
                    else None)
             else
               (case backslash e of
                  None \<Rightarrow> None
                | Some ch \<Rightarrow> map_option (\<lambda>(str, r). (ch # str, r)) (scanstring s')))
      else if py_ord c < 32 then None
      else map_option (\<lambda>(str, r). (c # str, r)) (scanstring s))"

definition match_frac :: "string \<Rightarrow> string \<times> string" where
  "match_frac r =
     (case r of
        c # r' \<Rightarrow>
          if c = CHR ''.'' \<and> takeWhile is_digit r' \<noteq> []
          then (c # takeWhile is_digit r', dropWhile is_digit r')
          else ([], r)
      | [] \<Rightarrow> ([], r))"

definition match_exp :: "string \<Rightarrow> string \<times> string" where
  "match_exp r =
     (case r of
        c # r' \<Rightarrow>
          if c = CHR ''e'' \<or> c = CHR ''E'' then
            (let (sg, r'') =
               (case r' of
                  x # y \<Rightarrow> if x = CHR ''-'' \<or> x = CHR ''+'' then ([x], y) else ([], r')
                | [] \<Rightarrow> ([], r'))
             in if takeWhile is_digit r'' \<noteq> []
                then (c # sg @ takeWhile is_digit r'', dropWhile is_digit r'')
                else ([], r))
          else ([], r)
      | [] \<Rightarrow> ([], r))"

definition match_number :: "string \<Rightarrow> (string \<times> string \<times> string \<times> string) option" where
  "match_number s =
     (let (sign, s1) =
        (case s of c # r \<Rightarrow> if c = CHR ''-'' then ([c], r) else ([], s) | [] \<Rightarrow> ([], s))
      in case s1 of
           [] \<Rightarrow> None
         | d # r \<Rightarrow>
             if is_digit d then
               (let (ds, r1) = (if d = CHR ''0'' then ([d], r)
                                else (takeWhile is_digit s1, dropWhile is_digit s1));
                    (frac, r2) = match_frac r1;
                    (ex, r3) = match_exp r2
                in Some (sign @ ds, frac, ex, r3))
             else None)"

definition py_int :: "string \<Rightarrow> int" where
  "py_int lit =
     (case lit of
        c # ds \<Rightarrow> if c = CHR ''-'' then - int (nat_of_digits ds) else int (nat_of_digits lit)
      | [] \<Rightarrow> 0)"

definition py_dict :: "(string \<times> json) list \<Rightarrow> (string \<times> json) list" where
  "py_dict pairs = foldl (\<lambda>d (k, v). AList.update k v d) [] pairs"

fun scan_once :: "nat \<Rightarrow> string \<Rightarrow> (json \<times> string) option"
  and array_loop :: "nat \<Rightarrow> string \<Rightarrow> json list \<Rightarrow> (json \<times> string) option"
  and object_loop :: "nat \<Rightarrow> string \<Rightarrow> (string \<times> json) list \<Rightarrow> (json \<times> string) option"
where
  "scan_once 0 s = None"
| "scan_once (Suc n) s =
     (case s of
        [] \<Rightarrow> None
      | c # r \<Rightarrow>
          if c = DQ then map_option (\<lambda>(str, r'). (JStr str, r')) (scanstring r)
          else if c = CHR ''{'' then
            (case skip_ws r of
               [] \<Rightarrow> None
             | d # r' \<Rightarrow>
                 if d = CHR ''}'' then Some (JObj [], r')
                 else if d = DQ then object_loop n r' []
                 else None)
          else if c = CHR ''['' then
            (case skip_ws r of
               [] \<Rightarrow> None
             | d # r' \<Rightarrow>
                 if d = CHR '']'' then Some (JArr [], r')
                 else array_loop n (d # r') [])
          else if c = CHR ''n'' \<and> take 4 s = ''null'' then Some (JNull, drop 4 s)
          else if c = CHR ''t'' \<and> take 4 s = ''true'' then Some (JBool True, drop 4 s)
          else if c = CHR ''f'' \<and> take 5 s = ''false'' then Some (JBool False, drop 5 s)
          else
            (case match_number s of
               Some (integer, frac, ex, rest) \<Rightarrow>
                 if frac \<noteq> [] \<or> ex \<noteq> [] then Some (JFloat (integer @ frac @ ex), rest)
                 else Some (JInt (py_int integer), rest)
             | None \<Rightarrow>
                 if c = CHR ''N'' \<and> take 3 s = ''NaN'' then Some (JFloat ''NaN'', drop 3 s)
                 else if c = CHR ''I'' \<and> take 8 s = ''Infinity'' then Some (JFloat ''Infinity'', drop 8 s)
                 else if c = CHR ''-'' \<and> take 9 s = ''-Infinity'' then Some (JFloat ''-Infinity'', drop 9 s)
                 else None))"
| "array_loop 0 s vals = None"
| "array_loop (Suc n) s vals =
     (case scan_once n s of
        None \<Rightarrow> None
      | Some (v, r) \<Rightarrow>
          (case skip_ws r of
             [] \<Rightarrow> None
           | c # r' \<Rightarrow>
               if c = CHR '']'' then Some (JArr (vals @ [v]), r')
               else if c \<noteq> CHR '','' then None
               else array_loop n (skip_ws r') (vals @ [v])))"
| "object_loop 0 s pairs = None"
| "object_loop (Suc n) s pairs =
     (case scanstring s of
        None \<Rightarrow> None
      | Some (key, r) \<Rightarrow>
          (case skip_ws r of
             [] \<Rightarrow> None
           | c # r1 \<Rightarrow>
               if c \<noteq> CHR '':'' then None
               else
                 (case scan_once n (skip_ws r1) of
                    None \<Rightarrow> None
                  | Some (v, r2) \<Rightarrow>
                      (case skip_ws r2 of
                         [] \<Rightarrow> None
                       | d # r3 \<Rightarrow>
                           if d = CHR ''}'' then Some (JObj (py_dict (pairs @ [(key, v)])), r3)
                           else if d \<noteq> CHR '','' then None
                           else
                             (case skip_ws r3 of
                                [] \<Rightarrow> None
                              | q # r4 \<Rightarrow>
                                  if q = DQ then object_loop n r4 (pairs @ [(key, v)])
                                  else None)))))"

definition json_loads :: "string \<Rightarrow> json option" where
  "json_loads s =
     (case scan_once (2 * length s + 2) (skip_ws s) of
        None \<Rightarrow> None
      | Some (v, r) \<Rightarrow> if skip_ws r = [] then Some v else None)"

section \<open>Upload helpers\<close>

subsection \<open>secure_filename\<close>

text \<open>
  Werkzeug's \<^verbatim>\<open>secure_filename\<close>: NFKD normalisation, dropping what is not ASCII,
  replacing the separator by a space, joining the whitespace-separated words with
  \<open>_\<close>, deleting every character outside \<^verbatim>\<open>[A-Za-z0-9_.-]\<close>, and stripping
  dots and underscores from both ends. The table gives, for each code point from U+0080 to
  U+00FF, the ASCII part of its NFKD decomposition where that is not empty.
\<close>

definition nfkd_ascii_table :: "(nat \<times> string) list" where
  "nfkd_ascii_table =
     [(160, '' ''), (168, '' ''), (170, ''a''), (175, '' ''), (178, ''2''), (179, ''3''),
      (180, '' ''), (184, '' ''), (185, ''1''), (186, ''o''), (188, ''14''), (189, ''12''),
      (190, ''34''), (192, ''A''), (193, ''A''), (194, ''A''), (195, ''A''), (196, ''A''),
      (197, ''A''), (199, ''C''), (200, ''E''), (201, ''E''), (202, ''E''), (203, ''E''),
      (204, ''I''), (205, ''I''), (206, ''I''), (207, ''I''), (209, ''N''), (210, ''O''),
      (211, ''O''), (212, ''O''), (213, ''O''), (214, ''O''), (217, ''U''), (218, ''U''),
      (219, ''U''), (220, ''U''), (221, ''Y''), (224, ''a''), (225, ''a''), (226, ''a''),
      (227, ''a''), (228, ''a''), (229, ''a''), (231, ''c''), (232, ''e''), (233, ''e''),
      (234, ''e''), (235, ''e''), (236, ''i''), (237, ''i''), (238, ''i''), (239, ''i''),
      (241, ''n''), (242, ''o''), (243, ''o''), (244, ''o''), (245, ''o''), (246, ''o''),
      (249, ''u''), (250, ''u''), (251, ''u''), (252, ''u''), (253, ''y''), (255, ''y'')]"

definition nfkd_ascii :: "char \<Rightarrow> string" where
  "nfkd_ascii c =
     (if py_ord c < 128 then [c]
      else case map_of nfkd_ascii_table (py_ord c) of Some s \<Rightarrow> s | None \<Rightarrow> [])"

fun split_ws :: "string \<Rightarrow> string \<Rightarrow> string list" where
  "split_ws w [] = (if w = [] then [] else [w])"
| "split_ws w (c # s) =
     (if py_isspace c then (if w = [] then split_ws [] s else w # split_ws [] s)
      else split_ws (w @ [c]) s)"

definition py_split :: "string \<Rightarrow> string list" where
  "py_split s = split_ws [] s"

definition filename_ascii_keep :: "char \<Rightarrow> bool" where
  "filename_ascii_keep c =
     (let n = py_ord c in
      (65 \<le> n \<and> n \<le> 90) \<or> (97 \<le> n \<and> n \<le> 122) \<or> (48 \<le> n \<and> n \<le> 57) \<or>
      c = CHR ''_'' \<or> c = CHR ''.'' \<or> c = CHR ''-'')"

definition strip_chars :: "string \<Rightarrow> string \<Rightarrow> string" where
  "strip_chars cs s =
     rev (dropWhile (\<lambda>c. c \<in> set cs) (rev (dropWhile (\<lambda>c. c \<in> set cs) s)))"

definition secure_filename :: "string \<Rightarrow> string" where
  "secure_filename filename =
     (let filename = concat (map nfkd_ascii filename);
          filename = map (\<lambda>c. if c = CHR ''/'' then CHR '' '' else c) filename;
          filename = filter filename_ascii_keep (py_join ''_'' (py_split filename))
      in strip_chars ''._'' filename)"

subsection \<open>allowed_file\<close>

definition ALLOWED_EXTENSIONS :: "string set" where
  "ALLOWED_EXTENSIONS =
     {''jpg'', ''jpeg'', ''png'', ''gif'', ''webp'',
      ''mp4'', ''webm'', ''mov'',
      ''pdf'', ''txt'', ''csv'', ''zip'', ''7z'', ''rar'',
      ''doc'', ''docx'', ''xls'', ''xlsx'', ''ppt'', ''pptx''}"

definition allowed_file :: "string \<Rightarrow> bool" where
  "allowed_file filename =
     (if CHR ''.'' \<notin> set filename then False
      else py_lower (after_last_dot filename) \<in> ALLOWED_EXTENSIONS)"

section \<open>Card log store\<close>

text \<open>
  The configuration holds the two directories the application reads from its environment.
  Opening a file for reading, appending or writing fails when the path is a directory;
  \<^verbatim>\<open>os.makedirs(p, exist_ok=True)\<close> fails when \<open>p\<close> is a file.
\<close>

record app =
  DATA_DIR :: string
  UPLOADS_DIR :: string

definition read_text :: "fs \<Rightarrow> string \<Rightarrow> error + string" where
  "read_text s p =
     (if p \<in> set (dirs s) then Inl IsADirectoryError
      else case map_of (files s) p of None \<Rightarrow> Inl FileNotFoundError | Some t \<Rightarrow> Inr t)"

definition append_text :: "fs \<Rightarrow> string \<Rightarrow> string \<Rightarrow> error + fs" where
  "append_text s p t =
     (if p \<in> set (dirs s) then Inl IsADirectoryError
      else Inr (s\<lparr>files :=
             AList.update p ((case map_of (files s) p of None \<Rightarrow> [] | Some old \<Rightarrow> old) @ t) (files s)\<rparr>))"

definition file_save :: "fs \<Rightarrow> string \<Rightarrow> string \<Rightarrow> error + fs" where
  "file_save s p bytes =
     (if p \<in> set (dirs s) then Inl IsADirectoryError
      else Inr (s\<lparr>files := AList.update p bytes (files s)\<rparr>))"

definition makedirs :: "fs \<Rightarrow> string \<Rightarrow> error + fs" where
  "makedirs s p =
     (if p \<in> set (dirs s) then Inr s
      else if p \<in> fst ` set (files s) then Inl FileExistsError
      else Inr (s\<lparr>dirs := p # dirs s\<rparr>))"

subsection \<open>Reading the log line by line\<close>

text \<open>
  A text file opened for reading translates \<^verbatim>\<open>\r\n\<close> and a lone
  \<^verbatim>\<open>\r\<close> to a line feed; iterating over it yields the lines, each with its line
  feed, and a last line without one when the text does not end in a line feed.
\<close>

fun universal_newlines :: "string \<Rightarrow> string" where
  "universal_newlines [] = []"
| "universal_newlines [c] = (if c = CR then [LF] else [c])"
| "universal_newlines (c # d # s) =
     (if c = CR \<and> d = LF then LF # universal_newlines s
      else if c = CR then LF # universal_newlines (d # s)
      else c # universal_newlines (d # s))"

fun lines_from :: "string \<Rightarrow> string \<Rightarrow> string list" where
  "lines_from cur [] = (if cur = [] then [] else [cur])"
| "lines_from cur (c # s) =
     (if c = LF then (cur @ [c]) # lines_from [] s else lines_from (cur @ [c]) s)"

definition text_lines :: "string \<Rightarrow> string list" where
  "text_lines t = lines_from [] (universal_newlines t)"

subsection \<open>load_cards and append_card\<close>

definition cards_csv_path :: "app \<Rightarrow> string" where
  "cards_csv_path a = os_path_join (DATA_DIR a) ''submissions.csv''"

fun load_loop :: "string list \<Rightarrow> json list \<Rightarrow> json list" where
  "load_loop [] cards = cards"
| "load_loop (line # rest) cards =
     (let line = strip line in
      if line = [] then load_loop rest cards
      else case json_loads line of
             Some v \<Rightarrow> load_loop rest (cards @ [v])
           | None \<Rightarrow> load_loop rest cards)"

definition load_cards :: "app \<Rightarrow> fs \<Rightarrow> error + json list" where
  "load_cards a s =
     (let path = cards_csv_path a in
      if \<not> path_exists s path then Inr []
      else case read_text s path of
             Inl e \<Rightarrow> Inl e
           | Inr t \<Rightarrow> Inr (load_loop (text_lines t) []))"

definition append_card :: "app \<Rightarrow> fs \<Rightarrow> json \<Rightarrow> error + fs" where
  "append_card a s crd =
     (let path = cards_csv_path a in append_text s path (json_dumps crd @ [LF]))"

section \<open>Publishing a card\<close>

text \<open>
  The POST branch of \<^verbatim>\<open>admin_new\<close>. The request carries the form fields and the
  uploaded files; the fresh identifier (\<^verbatim>\<open>uuid.uuid4().hex\<close>) and the clock
  (\<^verbatim>\<open>utcnow().replace(microsecond=0).isoformat()\<close>) are arguments. A flashed
  message is a constructor carrying what the message interpolates. The truth value of an
  upload is that of its file name, so \<^verbatim>\<open>not f or not getattr(f, "filename", "")\<close>
  holds exactly when the name is absent or empty. \<^verbatim>\<open>url_for\<close> follows the route
  \<^verbatim>\<open>/uploads/<card_id>/<path:filename>\<close>; a sanitized name needs no quoting.
\<close>

record stored_file =
  sf_name :: string
  sf_url :: string
  sf_ext :: string

record card =
  card_id :: string
  card_created_at :: string
  card_title :: string
  card_description :: string
  card_files :: "stored_file list"

definition stored_file_json :: "stored_file \<Rightarrow> json" where
  "stored_file_json f =
     JObj [(''name'', JStr (sf_name f)), (''url'', JStr (sf_url f)), (''ext'', JStr (sf_ext f))]"

definition card_json :: "card \<Rightarrow> json" where
  "card_json c =
     JObj [(''id'', JStr (card_id c)),
           (''created_at'', JStr (card_created_at c)),
           (''title'', JStr (card_title c)),
           (''description'', JStr (card_description c)),
           (''files'', JArr (map stored_file_json (card_files c)))]"

record upload =
  filename :: "string option"
  content :: string

datatype flash = TitleRequired | FileRejected string | CardPublished

datatype response = RedirectAdminNew | RedirectIndex | RenderAdminNew

record request =
  is_post :: bool
  form_title :: "string option"
  form_description :: "string option"
  form_files :: "upload list"

definition url_for_uploaded_file :: "string \<Rightarrow> string \<Rightarrow> string" where
  "url_for_uploaded_file cid fname = ''/uploads/'' @ cid @ ''/'' @ fname"

fun save_uploads ::
  "string \<Rightarrow> string \<Rightarrow> upload list \<Rightarrow> fs \<Rightarrow> stored_file list \<Rightarrow> flash list \<Rightarrow>
     error + (fs \<times> stored_file list \<times> flash list)" where
  "save_uploads cid card_folder [] s saved_files flashes = Inr (s, saved_files, flashes)"
| "save_uploads cid card_folder (f # fs) s saved_files flashes =
     (case filename f of
        None \<Rightarrow> save_uploads cid card_folder fs s saved_files flashes
      | Some original \<Rightarrow>
          if original = [] then save_uploads cid card_folder fs s saved_files flashes
          else
            let fname = secure_filename original in
            if fname = [] then save_uploads cid card_folder fs s saved_files flashes
            else if \<not> allowed_file fname
              then save_uploads cid card_folder fs s saved_files (flashes @ [FileRejected original])
            else
              let fname = unique_filename s card_folder fname;
                  save_path = os_path_join card_folder fname
              in case file_save s save_path (content f) of
                   Inl e \<Rightarrow> Inl e
                 | Inr s' \<Rightarrow>
                     save_uploads cid card_folder fs s'
                       (saved_files @
                          [\<lparr>sf_name = fname,
                            sf_url = url_for_uploaded_file cid fname,
                            sf_ext = py_lower (after_last_dot fname)\<rparr>])
                       flashes)"

definition admin_new ::
  "app \<Rightarrow> string \<Rightarrow> string \<Rightarrow> request \<Rightarrow> fs \<Rightarrow> error + (response \<times> flash list \<times> fs)" where
  "admin_new a uuid_hex utcnow req s =
     (if is_post req then
        let title = strip (case form_title req of None \<Rightarrow> [] | Some t \<Rightarrow> t);
            description = strip (case form_description req of None \<Rightarrow> [] | Some t \<Rightarrow> t);
            uploads = form_files req
        in if title = [] then Inr (RedirectAdminNew, [TitleRequired], s)
           else
             let cid = take 10 uuid_hex;
                 created_at = utcnow @ ''Z'';
                 card_folder = os_path_join (UPLOADS_DIR a) cid
             in case makedirs s card_folder of
                  Inl e \<Rightarrow> Inl e
                | Inr s1 \<Rightarrow>
                    (case save_uploads cid card_folder uploads s1 [] [] of
                       Inl e \<Rightarrow> Inl e
                     | Inr (s2, saved_files, flashes) \<Rightarrow>
                         (case append_card a s2
                                 (card_json \<lparr>card_id = cid, card_created_at = created_at,
                                             card_title = title, card_description = description,
                                             card_files = saved_files\<rparr>) of
                            Inl e \<Rightarrow> Inl e
                          | Inr s3 \<Rightarrow> Inr (RedirectIndex, flashes @ [CardPublished], s3)))
      else Inr (RenderAdminNew, [], s))"

section \<open>Notions used in the statements and proofs\<close>

text \<open>
  \<open>py_value\<close> holds of the values that are written and read back unchanged: no float
  (the encoder prints the shortest representation of the float, not the literal read) and
  no dictionary with a repeated key. \<open>need\<close> bounds the fuel the scanner uses on the
  encoding of a value, and \<open>follow_ok\<close> describes what may follow an encoded value
  inside an encoded list or dictionary.
\<close>

fun py_value :: "json \<Rightarrow> bool" where
  "py_value JNull = True"
| "py_value (JBool b) = True"
| "py_value (JInt i) = True"
| "py_value (JFloat lit) = False"
| "py_value (JStr s) = True"
| "py_value (JArr vs) = (\<forall>v\<in>set vs. py_value v)"
| "py_value (JObj kvs) = (distinct (map fst kvs) \<and> (\<forall>kv\<in>set kvs. py_value (snd kv)))"

fun need :: "json \<Rightarrow> nat" where
  "need (JArr vs) = 1 + sum_list (map need vs) + length vs"
| "need (JObj kvs) = 1 + sum_list (map (\<lambda>kv. need (snd kv)) kvs) + length kvs"
| "need v = 1"

definition follow_ok :: "string \<Rightarrow> bool" where
  "follow_ok rest = (rest = [] \<or> hd rest = CHR '','' \<or> hd rest = CHR '']'' \<or> hd rest = CHR ''}'')"

definition member_text :: "string \<times> json \<Rightarrow> string" where
  "member_text kv = (case kv of (k, v) \<Rightarrow> encode_basestring k @ '': '' @ json_dumps v)"

text \<open>
  No character of an encoded value is a control character; in particular there is no line
  break in it.
\<close>

definition no_control :: "string \<Rightarrow> bool" where
  "no_control s = (\<forall>c\<in>set s. 32 \<le> py_ord c)"

text \<open>
  The parts of \<^const>\<open>match_number\<close> and of \<^const>\<open>scan_once\<close> that do not
  recurse, named so that the scanner can be unfolded one step at a time.
\<close>

definition exp_sign :: "string \<Rightarrow> string \<times> string" where
  "exp_sign r' =
     (case r' of
        x # y \<Rightarrow> if x = CHR ''-'' \<or> x = CHR ''+'' then ([x], y) else ([], r')
      | [] \<Rightarrow> ([], r'))"

definition number_sign :: "string \<Rightarrow> string \<times> string" where
  "number_sign s =
     (case s of c # r \<Rightarrow> if c = CHR ''-'' then ([c], r) else ([], s) | [] \<Rightarrow> ([], s))"

definition int_digits :: "char \<Rightarrow> string \<Rightarrow> string \<times> string" where
  "int_digits d t =
     (if d = CHR ''0'' then ([d], t)
      else (takeWhile is_digit (d # t), dropWhile is_digit (d # t)))"

definition scan_atom :: "string \<Rightarrow> (json \<times> string) option" where
  "scan_atom s =
     (case s of
        [] \<Rightarrow> None
      | c # r \<Rightarrow>
          if c = CHR ''n'' \<and> take 4 s = ''null'' then Some (JNull, drop 4 s)
          else if c = CHR ''t'' \<and> take 4 s = ''true'' then Some (JBool True, drop 4 s)
          else if c = CHR ''f'' \<and> take 5 s = ''false'' then Some (JBool False, drop 5 s)
          else
            (case match_number s of
               Some (integer, frac, ex, rest) \<Rightarrow>
                 if frac \<noteq> [] \<or> ex \<noteq> [] then Some (JFloat (integer @ frac @ ex), rest)
                 else Some (JInt (py_int integer), rest)
             | None \<Rightarrow>
                 if c = CHR ''N'' \<and> take 3 s = ''NaN'' then Some (JFloat ''NaN'', drop 3 s)
                 else if c = CHR ''I'' \<and> take 8 s = ''Infinity'' then Some (JFloat ''Infinity'', drop 8 s)
                 else if c = CHR ''-'' \<and> take 9 s = ''-Infinity'' then Some (JFloat ''-Infinity'', drop 9 s)
                 else None))"

text \<open>
  What one round of the loop of \<^const>\<open>load_cards\<close> does with a line; the text of the
  log, empty when the file is missing; the state of a log that is empty or whose last line
  is complete; and a sequence of calls of \<^const>\<open>append_card\<close>, stopping at the first
  failure.
\<close>

definition parse_line :: "string \<Rightarrow> json option" where
  "parse_line line = (if strip line = [] then None else json_loads (strip line))"

definition log_text :: "app \<Rightarrow> fs \<Rightarrow> string" where
  "log_text a s = (case map_of (files s) (cards_csv_path a) of None \<Rightarrow> [] | Some t \<Rightarrow> t)"

definition log_terminated :: "app \<Rightarrow> fs \<Rightarrow> bool" where
  "log_terminated a s = (log_text a s = [] \<or> last (log_text a s) = LF)"

fun append_cards :: "app \<Rightarrow> fs \<Rightarrow> json list \<Rightarrow> error + fs" where
  "append_cards a s [] = Inr s"
| "append_cards a s (c # cs) =
     (case append_card a s c of Inl e \<Rightarrow> Inl e | Inr s' \<Rightarrow> append_cards a s' cs)"

text \<open>
  The \<open>base\<close> and \<open>ext\<close> that \<^const>\<open>unique_filename\<close> computes before its loop.
\<close>

definition split_ext :: "string \<Rightarrow> string \<times> string" where
  "split_ext fname =
     (let (base, dot, ext) = rpartition_dot fname
      in if dot = [] then (fname, []) else (base, ext))"

subsection \<open>Example data\<close>

text \<open>
  The default configuration of the source, a disk on which only the two configured
  directories exist, and the inputs of the worked examples.
\<close>

definition default_app :: app where
  "default_app = \<lparr>DATA_DIR = ''/var/data'', UPLOADS_DIR = ''/var/data/uploads''\<rparr>"

definition fresh_fs :: fs where
  "fresh_fs = \<lparr>files = [], dirs = [''/var/data'', ''/var/data/uploads'']\<rparr>"

definition example_card :: card where
  "example_card =
     \<lparr>card_id = ''0123456789'', card_created_at = ''2024-01-01T00:00:00Z'',
      card_title = ''Launch'', card_description = [],
      card_files = [\<lparr>sf_name = ''a.png'', sf_url = ''/uploads/0123456789/a.png'', sf_ext = ''png''\<rparr>]\<rparr>"

definition example_log :: fs where
  "example_log =
     \<lparr>files = [(''/var/data/submissions.csv'',
                 ''{}'' @ [LF] @ ''{bad'' @ [LF] @ ''[1, 2]'' @ [LF])],
      dirs = [''/var/data'', ''/var/data/uploads'']\<rparr>"


definition example_card_folder :: string where
  "example_card_folder = ''/var/data/uploads/0123456789''"

definition card_dir_fs :: fs where
  "card_dir_fs = \<lparr>files = [], dirs = [''/var/data/uploads/0123456789'', ''/var/data'', ''/var/data/uploads'']\<rparr>"

definition one_file_fs :: fs where
  "one_file_fs =
     \<lparr>files = [(''/var/data/uploads/0123456789/a.png'', ''PNG1'')],
      dirs = [''/var/data/uploads/0123456789'', ''/var/data'', ''/var/data/uploads'']\<rparr>"

section \<open>Properties\<close>

subsection \<open>Characters and decimal numerals\<close>

lemma py_ord_eq_iff: "c = d \<longleftrightarrow> py_ord c = py_ord d"
  by (simp add: py_ord_def)

lemma py_ord_less: "py_ord c < 256"
  unfolding py_ord_def by simp

lemma py_ord_lower:
  "py_ord (py_lower_char c) =
     (if (65 \<le> py_ord c \<and> py_ord c \<le> 90) \<or>
         (192 \<le> py_ord c \<and> py_ord c \<le> 222 \<and> py_ord c \<noteq> 215)
      then py_ord c + 32 else py_ord c)"
  using py_ord_less[of c]
  by (simp add: py_lower_char_def Let_def py_ord_char_of)

lemma length_py_lower: "length (py_lower s) = length s"
  by (simp add: py_lower_def)

lemma is_digit_digit_char: "d < 10 \<Longrightarrow> is_digit (digit_char d)"
  by (simp add: is_digit_def digit_char_def py_ord_char_of)

lemma py_str_nat_digits: "c \<in> set (py_str_nat n) \<Longrightarrow> is_digit c"
proof (induction n rule: py_str_nat.induct)
  case (1 n)
  show ?case
  proof (cases "n < 10")
    case True
    then show ?thesis
      using 1(2) by (simp add: py_str_nat.simps[of n] is_digit_digit_char)
  next
    case False
    then show ?thesis
      using 1 by (auto simp add: py_str_nat.simps[of n] is_digit_digit_char)
  qed
qed

lemma py_str_nat_nonempty: "py_str_nat n \<noteq> []"
  by (subst py_str_nat.simps) simp

subsection \<open>The identifier sanitizer\<close>

lemma hex_lower_codes:
  "c \<in> set ''0123456789abcdef'' \<longleftrightarrow> py_ord c \<in> {48..57} \<union> {97..102}"
proof -
  have "c \<in> set ''0123456789abcdef'' \<longleftrightarrow>
        py_ord c \<in> {48,49,50,51,52,53,54,55,56,57,97,98,99,100,101,102}"
    by (simp add: py_ord_eq_iff[of c] py_ord_def[of "Char _ _ _ _ _ _ _ _"])
  also have "\<dots> \<longleftrightarrow> py_ord c \<in> {48..57} \<union> {97..102}"
    by (simp only: insert_iff empty_iff Un_iff atLeastAtMost_iff) arith
  finally show ?thesis .
qed

lemma hex_any_case_codes:
  "c \<in> set ''0123456789abcdefABCDEF'' \<longleftrightarrow> py_ord c \<in> {48..57} \<union> {97..102} \<union> {65..70}"
proof -
  have "c \<in> set ''0123456789abcdefABCDEF'' \<longleftrightarrow>
        py_ord c \<in> {48,49,50,51,52,53,54,55,56,57,97,98,99,100,101,102,65,66,67,68,69,70}"
    by (simp add: py_ord_eq_iff[of c] py_ord_def[of "Char _ _ _ _ _ _ _ _"])
  also have "\<dots> \<longleftrightarrow> py_ord c \<in> {48..57} \<union> {97..102} \<union> {65..70}"
    by (simp only: insert_iff empty_iff Un_iff atLeastAtMost_iff) arith
  finally show ?thesis .
qed

lemma lower_is_hex_iff:
  "py_lower_char c \<in> set ''0123456789abcdef'' \<longleftrightarrow> c \<in> set ''0123456789abcdefABCDEF''"
  unfolding hex_lower_codes hex_any_case_codes py_ord_lower
  by (simp only: Un_iff atLeastAtMost_iff split: if_split) arith

lemma all_lower_hex_iff:
  "(\<forall>c\<in>set (py_lower s). c \<in> set ''0123456789abcdef'') \<longleftrightarrow>
   (\<forall>c\<in>set s. c \<in> set ''0123456789abcdefABCDEF'')"
  unfolding py_lower_def by (simp only: set_map ball_simps lower_is_hex_iff)

text \<open>
  Claim C4. \<^const>\<open>sanitize_id\<close> accepts \<open>raw\<close> (returns a non-empty id) exactly when
  the case-folded \<open>raw\<close> consists of lowercase hexadecimal characters only and has between
  8 and 32 characters; equivalently, when \<open>raw\<close> itself consists of hexadecimal digits of
  either case and has that length. An accepted string is returned whole, case-folded; a
  string with any other character (a slash, a backslash, a dot) is rejected.
\<close>

theorem sanitize_id_accepts_iff:
  "(sanitize_id raw \<noteq> [] \<longleftrightarrow>
      (\<forall>c\<in>set (py_lower raw). c \<in> set ''0123456789abcdef'') \<and>
      8 \<le> length raw \<and> length raw \<le> 32) \<and>
   (sanitize_id raw \<noteq> [] \<longleftrightarrow>
      (\<forall>c\<in>set raw. c \<in> set ''0123456789abcdefABCDEF'') \<and>
      8 \<le> length raw \<and> length raw \<le> 32) \<and>
   (sanitize_id raw \<noteq> [] \<longrightarrow> sanitize_id raw = py_lower raw) \<and>
   ((\<exists>c\<in>set raw. c \<notin> set ''0123456789abcdefABCDEF'') \<longrightarrow> sanitize_id raw = [])"
proof -
  have len: "length (py_lower raw) = length raw"
    by (rule length_py_lower)
  have nonempty: "py_lower raw = [] \<longleftrightarrow> raw = []"
    by (simp add: py_lower_def)
  have a: "sanitize_id raw \<noteq> [] \<longleftrightarrow>
      (\<forall>c\<in>set (py_lower raw). c \<in> set ''0123456789abcdef'') \<and>
      8 \<le> length raw \<and> length raw \<le> 32"
  proof (cases "raw = []")
    case True
    then show ?thesis by (simp add: sanitize_id_def)
  next
    case False
    then show ?thesis
      unfolding sanitize_id_def Let_def len
      by (simp only: if_False nonempty split: if_split) auto
  qed
  have b: "sanitize_id raw \<noteq> [] \<longrightarrow> sanitize_id raw = py_lower raw"
    unfolding sanitize_id_def Let_def by (simp only: split: if_split) simp
  from a b show ?thesis
    unfolding all_lower_hex_iff by blast
qed

theorem sanitize_id_accepts_iff_witness:
  "set ''0123ABCDef'' \<subseteq> set ''0123456789abcdefABCDEF'' \<and>
   8 \<le> length ''0123ABCDef'' \<and> length ''0123ABCDef'' \<le> 32 \<and>
   sanitize_id ''0123ABCDef'' \<noteq> [] \<and>
   sanitize_id ''0123ABCDef'' = py_lower ''0123ABCDef'' \<and>
   py_lower ''0123ABCDef'' = ''0123abcdef''"
proof -
  have low: "py_lower ''0123ABCDef'' = ''0123abcdef''"
    by code_simp
  show ?thesis
    using sanitize_id_accepts_iff [of "''0123ABCDef''"] by (simp add: low)
qed

subsection \<open>The decoder reads back what the encoder writes\<close>

lemma hex_val_hex_digit: "d < 16 \<Longrightarrow> hex_val (hex_digit d) = Some d"
  by (auto simp: hex_val_def hex_digit_def Let_def py_ord_char_of)

lemma decode_u_control:
  "n < 256 \<Longrightarrow>
   decode_uXXXX [CHR ''0'', CHR ''0'', hex_digit (n div 16), hex_digit (n mod 16)] = Some n"
proof -
  assume n: "n < 256"
  have z: "hex_val (CHR ''0'') = Some 0"
    by (simp add: hex_val_def py_ord_def)
  have "n div 16 < 16" using n by simp
  then have a: "hex_val (hex_digit (n div 16)) = Some (n div 16)"
    by (rule hex_val_hex_digit)
  have b: "hex_val (hex_digit (n mod 16)) = Some (n mod 16)"
    by (rule hex_val_hex_digit) simp
  show ?thesis
    by (simp add: decode_uXXXX_def z a b)
qed

lemma char_of_py_ord: "char_of (py_ord c) = c"
  by (simp add: py_ord_def)

lemma scanstring_escape_char:
  assumes "scanstring r = Some (str, rest)"
  shows "scanstring (escape_char c @ r) = Some (c # str, rest)"
proof -
  consider (dq) "c = DQ" | (bsl) "c = BSL" | (lf) "c = LF" | (cr) "c = CR" | (tab) "c = TAB"
    | (bs) "c = CHR 0x08" | (ff) "c = CHR 0x0C"
    | (ctl) "c \<noteq> DQ" "c \<noteq> BSL" "c \<noteq> LF" "c \<noteq> CR" "c \<noteq> TAB" "c \<noteq> CHR 0x08" "c \<noteq> CHR 0x0C" "py_ord c < 32"
    | (plain) "c \<noteq> DQ" "c \<noteq> BSL" "c \<noteq> LF" "c \<noteq> CR" "c \<noteq> TAB" "c \<noteq> CHR 0x08" "c \<noteq> CHR 0x0C" "\<not> py_ord c < 32"
    by blast
  then show ?thesis
  proof cases
    case dq then show ?thesis using assms by (simp add: escape_char_def backslash_def)
  next
    case bsl then show ?thesis using assms by (simp add: escape_char_def backslash_def)
  next
    case lf then show ?thesis using assms by (simp add: escape_char_def backslash_def)
  next
    case cr then show ?thesis using assms by (simp add: escape_char_def backslash_def)
  next
    case tab then show ?thesis using assms by (simp add: escape_char_def backslash_def)
  next
    case bs then show ?thesis using assms by (simp add: escape_char_def backslash_def)
  next
    case ff then show ?thesis using assms by (simp add: escape_char_def backslash_def)
  next
    case ctl
    have d: "decode_uXXXX [CHR ''0'', CHR ''0'', hex_digit (py_ord c div 16), hex_digit (py_ord c mod 16)] = Some (py_ord c)"
      by (rule decode_u_control) (rule py_ord_less)
    show ?thesis
      using ctl assms py_ord_less[of c]
      by (simp add: escape_char_def d char_of_py_ord)
  next
    case plain
    then show ?thesis using assms by (simp add: escape_char_def)
  qed
qed

lemma scanstring_escaped:
  "scanstring (concat (map escape_char s) @ DQ # rest) = Some (s, rest)"
proof (induction s)
  case Nil
  show ?case by simp
next
  case (Cons c s)
  show ?case
    using scanstring_escape_char[OF Cons.IH, of c] by simp
qed

lemma scan_once_string:
  "scan_once (Suc n) (encode_basestring s @ rest) = Some (JStr s, rest)"
  by (simp add: encode_basestring_def scanstring_escaped)

lemma digit_char_not_zero: "0 < d \<Longrightarrow> d < 10 \<Longrightarrow> digit_char d \<noteq> CHR ''0''"
proof
  assume d: "0 < d" "d < 10" and e: "digit_char d = CHR ''0''"
  from e have "py_ord (digit_char d) = py_ord (CHR ''0'')" by simp
  with d show False
    by (simp add: digit_char_def py_ord_char_of) (simp add: py_ord_def)
qed

lemma digit_char_not_minus: "d < 10 \<Longrightarrow> digit_char d \<noteq> CHR ''-''"
proof
  assume d: "d < 10" and e: "digit_char d = CHR ''-''"
  from e have "py_ord (digit_char d) = py_ord (CHR ''-'')" by simp
  with d show False
    by (simp add: digit_char_def py_ord_char_of) (simp add: py_ord_def)
qed

lemma py_str_nat_zero: "py_str_nat 0 = ''0''"
  by (subst py_str_nat.simps) (simp add: digit_char_def char_of_eq_iff)

lemma hd_py_str_nat_digit: "is_digit (hd (py_str_nat n))"
  using py_str_nat_digits[of "hd (py_str_nat n)" n] py_str_nat_nonempty[of n]
  by simp

lemma hd_py_str_nat_nonzero: "0 < n \<Longrightarrow> hd (py_str_nat n) \<noteq> CHR ''0''"
proof (induction n rule: py_str_nat.induct)
  case (1 n)
  show ?case
  proof (cases "n < 10")
    case True
    with 1(2) show ?thesis
      by (simp add: py_str_nat.simps[of n] digit_char_not_zero)
  next
    case False
    then have "0 < n div 10" by simp
    with 1(1) False have "hd (py_str_nat (n div 10)) \<noteq> CHR ''0''" by simp
    with False show ?thesis
      by (simp add: py_str_nat.simps[of n] py_str_nat_nonempty)
  qed
qed

lemma is_digit_literals [simp]:
  "\<not> is_digit (CHR '','')" "\<not> is_digit (CHR '']'')" "\<not> is_digit (CHR ''}'')"
  "\<not> is_digit (CHR ''-'')" "is_digit (CHR ''0'')"
  by (simp_all add: is_digit_def py_ord_def)

lemma takeWhile_digits:
  assumes "\<forall>c\<in>set ds. is_digit c" and "rest = [] \<or> \<not> is_digit (hd rest)"
  shows "takeWhile is_digit (ds @ rest) = ds \<and> dropWhile is_digit (ds @ rest) = rest"
proof (cases rest)
  case Nil
  with assms(1) show ?thesis by simp
next
  case (Cons c r)
  with assms(2) have "\<not> is_digit c" by simp
  with assms(1) Cons show ?thesis
    by (simp add: takeWhile_append2 dropWhile_append2)
qed

lemma follow_ok_not_digit: "follow_ok rest \<Longrightarrow> rest = [] \<or> \<not> is_digit (hd rest)"
  by (auto simp: follow_ok_def)

lemma match_frac_follow: "follow_ok rest \<Longrightarrow> match_frac rest = ([], rest)"
  by (cases rest) (auto simp: follow_ok_def match_frac_def)

lemma match_exp_follow: "follow_ok rest \<Longrightarrow> match_exp rest = ([], rest)"
  by (cases rest) (auto simp: follow_ok_def match_exp_def)

lemma match_number_nat:
  assumes "follow_ok rest"
  shows "match_number (py_str_nat n @ rest) = Some (py_str_nat n, [], [], rest)"
proof -
  obtain d ds where s: "py_str_nat n = d # ds"
    using py_str_nat_nonempty[of n] by (cases "py_str_nat n") auto
  have dig: "is_digit d"
    using hd_py_str_nat_digit[of n] s by simp
  then have nm: "d \<noteq> CHR ''-''"
    by auto
  have all: "\<forall>c\<in>set (d # ds). is_digit c"
    using py_str_nat_digits[of _ n] s by auto
  have tw: "takeWhile is_digit ((d # ds) @ rest) = d # ds \<and> dropWhile is_digit ((d # ds) @ rest) = rest"
    by (rule takeWhile_digits[OF all follow_ok_not_digit[OF assms]])
  show ?thesis
  proof (cases "d = CHR ''0''")
    case True
    then have "n = 0"
      using hd_py_str_nat_nonzero[of n] s by auto
    then have "ds = []"
      using s py_str_nat_zero by simp
    with True s nm dig show ?thesis
      by (simp add: match_number_def match_frac_follow[OF assms] match_exp_follow[OF assms])
  next
    case False
    with s nm dig tw show ?thesis
      by (simp add: match_number_def match_frac_follow[OF assms] match_exp_follow[OF assms])
  qed
qed

lemma match_number_int:
  assumes "follow_ok rest"
  shows "match_number (py_str_int i @ rest) = Some (py_str_int i, [], [], rest)"
proof (cases "i < 0")
  case False
  then show ?thesis
    by (simp add: py_str_int_def match_number_nat[OF assms])
next
  case True
  let ?n = "nat (- i)"
  have pos: "0 < ?n" using True by simp
  obtain d ds where s: "py_str_nat ?n = d # ds"
    using py_str_nat_nonempty[of ?n] by (cases "py_str_nat ?n") auto
  have dig: "is_digit d"
    using hd_py_str_nat_digit[of ?n] s by simp
  have nz: "d \<noteq> CHR ''0''"
    using hd_py_str_nat_nonzero[OF pos] s by simp
  have all: "\<forall>c\<in>set (d # ds). is_digit c"
    using py_str_nat_digits[of _ ?n] s by auto
  have tw: "takeWhile is_digit ((d # ds) @ rest) = d # ds \<and> dropWhile is_digit ((d # ds) @ rest) = rest"
    by (rule takeWhile_digits[OF all follow_ok_not_digit[OF assms]])
  show ?thesis
    using True s dig nz tw
    by (simp add: py_str_int_def match_number_def match_frac_follow[OF assms] match_exp_follow[OF assms])
qed

lemma py_int_str: "py_int (py_str_int i) = i"
proof (cases "i < 0")
  case True
  then show ?thesis
    by (simp add: py_int_def py_str_int_def nat_of_digits_str)
next
  case False
  obtain d ds where s: "py_str_nat (nat i) = d # ds"
    using py_str_nat_nonempty[of "nat i"] by (cases "py_str_nat (nat i)") auto
  have "is_digit d"
    using hd_py_str_nat_digit[of "nat i"] s by simp
  then have nm: "d \<noteq> CHR ''-''" by auto
  have "nat_of_digits (d # ds) = nat i"
    using nat_of_digits_str[of "nat i"] s by simp
  with False s nm show ?thesis
    by (simp add: py_int_def py_str_int_def)
qed

lemma py_str_int_first:
  "\<exists>c r. py_str_int i = c # r \<and> (c = CHR ''-'' \<or> is_digit c)"
proof -
  obtain d ds where s: "py_str_nat (nat \<bar>i\<bar>) = d # ds"
    using py_str_nat_nonempty[of "nat \<bar>i\<bar>"] by (cases "py_str_nat (nat \<bar>i\<bar>)") auto
  have "is_digit d"
    using hd_py_str_nat_digit[of "nat \<bar>i\<bar>"] s by simp
  then show ?thesis
    using s by (cases "i < 0") (auto simp: py_str_int_def abs_if)
qed

lemma json_ws_isspace: "json_ws c \<Longrightarrow> py_isspace c"
  by (auto simp: json_ws_def py_isspace_def py_ord_def)

lemma skip_ws_Cons: "\<not> json_ws c \<Longrightarrow> skip_ws (c # s) = c # s"
  by (simp add: skip_ws_def)

lemma skip_ws_space: "skip_ws (CHR '' '' # s) = skip_ws s"
  by (simp add: skip_ws_def json_ws_def)

lemma json_ws_literals [simp]:
  "\<not> json_ws DQ" "\<not> json_ws (CHR '','')" "\<not> json_ws (CHR '']'')" "\<not> json_ws (CHR ''}'')"
  "\<not> json_ws (CHR '':'')" "\<not> json_ws (CHR ''['')" "\<not> json_ws (CHR ''{'')"
  by (simp_all add: json_ws_def)

lemma is_digit_not_space: "is_digit c \<Longrightarrow> \<not> py_isspace c"
  by (auto simp: is_digit_def py_isspace_def)

lemma number_start_distinct:
  "is_digit c \<or> c = CHR ''-'' \<Longrightarrow>
     c \<noteq> DQ \<and> c \<noteq> CHR ''{'' \<and> c \<noteq> CHR ''['' \<and> c \<noteq> CHR ''n'' \<and> c \<noteq> CHR ''t'' \<and> c \<noteq> CHR ''f''"
  by (auto simp: is_digit_def py_ord_def)

lemma py_join_Cons:
  "py_join sep (x # xs) = x @ (if xs = [] then [] else sep @ py_join sep xs)"
  by (cases xs) simp_all

lemma json_dumps_first:
  "py_value v \<Longrightarrow> \<exists>c r. json_dumps v = c # r \<and> \<not> py_isspace c \<and> c \<noteq> CHR '']''"
proof (cases v)
  case (JInt i)
  obtain c r where "py_str_int i = c # r" "c = CHR ''-'' \<or> is_digit c"
    using py_str_int_first by blast
  moreover have "\<not> py_isspace (CHR ''-'')"
    by (simp add: py_isspace_def py_ord_def)
  moreover have "\<not> is_digit (CHR '']'')"
    by simp
  ultimately show ?thesis
    using JInt is_digit_not_space by auto
next
  case (JBool b)
  then show ?thesis
    by (cases b) (simp_all add: py_isspace_def py_ord_def)
qed (auto simp: encode_basestring_def py_isspace_def py_ord_def)

lemma skip_ws_dumps:
  assumes "py_value v"
  shows "skip_ws (json_dumps v @ rest) = json_dumps v @ rest"
proof -
  obtain c r where "json_dumps v = c # r" "\<not> py_isspace c"
    using json_dumps_first[OF assms] by blast
  then have "json_dumps v = c # r" "\<not> json_ws c"
    using json_ws_isspace[of c] by auto
  then show ?thesis
    by (simp add: skip_ws_Cons)
qed

lemma need_pos: "0 < need v"
  by (cases v) simp_all

lemma follow_ok_literals [simp]:
  "follow_ok []" "follow_ok (CHR '','' # s)" "follow_ok (CHR '']'' # s)" "follow_ok (CHR ''}'' # s)"
  by (simp_all add: follow_ok_def)

lemma array_loop_dumps:
  assumes "\<And>v n rest. v \<in> set vs \<Longrightarrow> need v \<le> n \<Longrightarrow> follow_ok rest \<Longrightarrow>
             scan_once n (json_dumps v @ rest) = Some (v, rest)"
    and "\<forall>v\<in>set vs. py_value v"
    and "vs \<noteq> []"
    and "sum_list (map need vs) + length vs \<le> n"
  shows "array_loop n (py_join '', '' (map json_dumps vs) @ CHR '']'' # rest) acc =
           Some (JArr (acc @ vs), rest)"
  using assms
proof (induction vs arbitrary: n acc)
  case Nil
  then show ?case by simp
next
  case (Cons v vs)
  from Cons.prems(4) need_pos[of v] obtain m where n: "n = Suc m"
    by (cases n) auto
  have fv: "need v \<le> m"
    using Cons.prems(4) n by simp
  show ?case
  proof (cases vs)
    case Nil
    have "scan_once m (json_dumps v @ CHR '']'' # rest) = Some (v, CHR '']'' # rest)"
      by (rule Cons.prems(1)) (simp_all add: fv)
    then show ?thesis
      using Nil n by (simp add: skip_ws_Cons)
  next
    case (Cons w ws)
    let ?tail = "py_join '', '' (map json_dumps vs) @ CHR '']'' # rest"
    have s1: "scan_once m (json_dumps v @ CHR '','' # CHR '' '' # ?tail) =
                Some (v, CHR '','' # CHR '' '' # ?tail)"
      by (rule Cons.prems(1)) (simp_all add: fv)
    have pw: "py_value w"
      using Cons.prems(2) Cons by simp
    have sk: "skip_ws ?tail = ?tail"
      using skip_ws_dumps[OF pw] Cons by (simp add: py_join_Cons)
    have fuel': "sum_list (map need vs) + length vs \<le> m"
      using Cons.prems(4) n need_pos[of v] by simp
    have rec: "array_loop m ?tail (acc @ [v]) = Some (JArr ((acc @ [v]) @ vs), rest)"
    proof (rule Cons.IH)
      show "\<And>v' n rest. v' \<in> set vs \<Longrightarrow> need v' \<le> n \<Longrightarrow> follow_ok rest \<Longrightarrow>
              scan_once n (json_dumps v' @ rest) = Some (v', rest)"
        using Cons.prems(1) by simp
      show "\<forall>v\<in>set vs. py_value v" using Cons.prems(2) by simp
      show "vs \<noteq> []" using Cons by simp
      show "sum_list (map need vs) + length vs \<le> m" by (rule fuel')
    qed
    have j: "py_join '', '' (map json_dumps (v # vs)) = json_dumps v @ CHR '','' # CHR '' '' # py_join '', '' (map json_dumps vs)"
      using Cons by simp
    show ?thesis
      unfolding j n using s1 sk rec
      by (simp add: skip_ws_Cons skip_ws_space)
  qed
qed

lemma json_dumps_obj:
  "json_dumps (JObj kvs) = CHR ''{'' # py_join '', '' (map member_text kvs) @ ''}''"
proof -
  have "(\<lambda>(k, v). encode_basestring k @ '': '' @ json_dumps v) = member_text"
    by (rule ext) (simp add: member_text_def)
  then show ?thesis by simp
qed

lemma update_fresh: "k \<notin> fst ` set al \<Longrightarrow> AList.update k v al = al @ [(k, v)]"
  by (induction al) auto

lemma foldl_update_distinct:
  "distinct (map fst (d @ kvs)) \<Longrightarrow>
   foldl (\<lambda>d (k, v). AList.update k v d) d kvs = d @ kvs"
proof (induction kvs arbitrary: d)
  case Nil
  then show ?case by simp
next
  case (Cons kv kvs)
  obtain k v where kv: "kv = (k, v)" by (cases kv)
  have fresh: "k \<notin> fst ` set d"
    using Cons.prems kv by auto
  have "distinct (map fst ((d @ [(k, v)]) @ kvs))"
    using Cons.prems kv by simp
  from Cons.IH[OF this] show ?case
    using kv by (simp add: update_fresh[OF fresh])
qed

lemma py_dict_distinct: "distinct (map fst kvs) \<Longrightarrow> py_dict kvs = kvs"
  using foldl_update_distinct[of "[]" kvs] by (simp add: py_dict_def)

lemma object_loop_dumps:
  assumes "\<And>kv n rest. kv \<in> set kvs \<Longrightarrow> need (snd kv) \<le> n \<Longrightarrow> follow_ok rest \<Longrightarrow>
             scan_once n (json_dumps (snd kv) @ rest) = Some (snd kv, rest)"
    and "\<forall>kv\<in>set kvs. py_value (snd kv)"
    and "kvs \<noteq> []"
    and "sum_list (map (\<lambda>kv. need (snd kv)) kvs) + length kvs \<le> n"
  shows "object_loop n (tl (py_join '', '' (map member_text kvs)) @ CHR ''}'' # rest) pairs =
           Some (JObj (py_dict (pairs @ kvs)), rest)"
  using assms
proof (induction kvs arbitrary: n pairs)
  case Nil
  then show ?case by simp
next
  case (Cons kv kvs)
  obtain k v where kv: "kv = (k, v)" by (cases kv)
  from Cons.prems(4) need_pos[of v] kv obtain m where n: "n = Suc m"
    by (cases n) auto
  have fv: "need v \<le> m"
    using Cons.prems(4) n kv by simp
  have pv: "py_value v"
    using Cons.prems(2) kv by simp
  have scan: "\<And>rest. follow_ok rest \<Longrightarrow> scan_once m (json_dumps v @ rest) = Some (v, rest)"
    using Cons.prems(1)[of kv m] kv fv by simp
  have key: "\<And>X. scanstring (concat (map escape_char k) @ DQ # X) = Some (k, X)"
    by (rule scanstring_escaped)
  show ?case
  proof (cases kvs)
    case Nil
    have shape: "tl (py_join '', '' (map member_text (kv # kvs))) @ CHR ''}'' # rest =
               concat (map escape_char k) @ DQ # CHR '':'' # CHR '' '' # json_dumps v @ CHR ''}'' # rest"
      using Nil kv by (simp add: member_text_def encode_basestring_def)
    show ?thesis
      unfolding shape n using Nil kv
      by (simp add: key skip_ws_Cons skip_ws_space skip_ws_dumps[OF pv] scan)
  next
    case (Cons kw kws)
    let ?tail = "py_join '', '' (map member_text kvs)"
    obtain k' w where kw: "kw = (k', w)" by (cases kw)
    have tail_hd: "?tail = DQ # tl ?tail"
      using Cons kw by (simp add: py_join_Cons member_text_def encode_basestring_def)
    have shape: "tl (py_join '', '' (map member_text (kv # kvs))) @ CHR ''}'' # rest =
               concat (map escape_char k) @ DQ # CHR '':'' # CHR '' '' # json_dumps v @
                 CHR '','' # CHR '' '' # DQ # tl ?tail @ CHR ''}'' # rest"
    proof -
      have "py_join '', '' (map member_text (kv # kvs)) = member_text kv @ '', '' @ ?tail"
        using Cons by simp
      also have "\<dots> = member_text kv @ '', '' @ DQ # tl ?tail"
        using tail_hd by simp
      finally show ?thesis
        using kv by (simp add: member_text_def encode_basestring_def)
    qed
    have fuel': "sum_list (map (\<lambda>kv. need (snd kv)) kvs) + length kvs \<le> m"
      using Cons.prems(4) n need_pos[of v] kv by simp
    have rec: "object_loop m (tl ?tail @ CHR ''}'' # rest) (pairs @ [kv]) =
                 Some (JObj (py_dict ((pairs @ [kv]) @ kvs)), rest)"
    proof (rule Cons.IH)
      show "\<And>kv' n rest. kv' \<in> set kvs \<Longrightarrow> need (snd kv') \<le> n \<Longrightarrow> follow_ok rest \<Longrightarrow>
              scan_once n (json_dumps (snd kv') @ rest) = Some (snd kv', rest)"
        using Cons.prems(1) by simp
      show "\<forall>kv\<in>set kvs. py_value (snd kv)" using Cons.prems(2) by simp
      show "kvs \<noteq> []" using Cons by simp
      show "sum_list (map (\<lambda>kv. need (snd kv)) kvs) + length kvs \<le> m" by (rule fuel')
    qed
    show ?thesis
      unfolding shape n using rec kv
      by (simp add: key skip_ws_Cons skip_ws_space skip_ws_dumps[OF pv] scan)
  qed
qed

lemma scan_once_dumps:
  "py_value v \<Longrightarrow> need v \<le> n \<Longrightarrow> follow_ok rest \<Longrightarrow>
   scan_once n (json_dumps v @ rest) = Some (v, rest)"
proof (induction v arbitrary: n rest)
  case JNull
  then obtain m where "n = Suc m" by (cases n) auto
  then show ?case by simp
next
  case (JBool b)
  then obtain m where "n = Suc m" by (cases n) auto
  then show ?case by simp
next
  case (JInt i)
  then obtain m where n: "n = Suc m" by (cases n) auto
  obtain c r where s: "py_str_int i = c # r" and c: "c = CHR ''-'' \<or> is_digit c"
    using py_str_int_first by blast
  have d: "c \<noteq> DQ \<and> c \<noteq> CHR ''{'' \<and> c \<noteq> CHR ''['' \<and> c \<noteq> CHR ''n'' \<and> c \<noteq> CHR ''t'' \<and> c \<noteq> CHR ''f''"
    using number_start_distinct[of c] c by blast
  have m: "match_number (c # r @ rest) = Some (c # r, [], [], rest)"
    using match_number_int[OF JInt.prems(3), of i] s by simp
  have v: "py_int (c # r) = i"
    using py_int_str[of i] s by simp
  show ?case
    using n s d m v by simp
next
  case (JFloat lit)
  then show ?case by simp
next
  case (JStr s)
  then obtain m where "n = Suc m" by (cases n) auto
  then show ?case
    using scan_once_string[of m s rest] by simp
next
  case (JArr vs)
  from JArr.prems(2) obtain m where n: "n = Suc m" by (cases n) auto
  show ?case
  proof (cases "vs = []")
    case True
    then show ?thesis using n by (simp add: skip_ws_Cons)
  next
    case False
    let ?body = "py_join '', '' (map json_dumps vs) @ CHR '']'' # rest"
    have loop: "array_loop m ?body [] = Some (JArr ([] @ vs), rest)"
    proof (rule array_loop_dumps)
      show "\<And>v n rest. v \<in> set vs \<Longrightarrow> need v \<le> n \<Longrightarrow> follow_ok rest \<Longrightarrow>
              scan_once n (json_dumps v @ rest) = Some (v, rest)"
        using JArr.IH JArr.prems(1) by simp
      show "\<forall>v\<in>set vs. py_value v" using JArr.prems(1) by simp
      show "vs \<noteq> []" by (rule False)
      show "sum_list (map need vs) + length vs \<le> m" using JArr.prems(2) n by simp
    qed
    obtain w ws where vs: "vs = w # ws" using False by (cases vs) auto
    have pw: "py_value w" using JArr.prems(1) vs by simp
    obtain c r where b: "?body = c # r" and cw: "\<not> json_ws c" and c_not: "c \<noteq> CHR '']''"
    proof -
      obtain c r where "json_dumps w = c # r" "\<not> py_isspace c" "c \<noteq> CHR '']''"
        using json_dumps_first[OF pw] by blast
      then have "?body = c # (r @ (if ws = [] then [] else '', '' @ py_join '', '' (map json_dumps ws)) @ CHR '']'' # rest)"
          "\<not> json_ws c" "c \<noteq> CHR '']''"
        using vs json_ws_isspace[of c] by (auto simp: py_join_Cons)
      then show ?thesis using that by blast
    qed
    show ?thesis
      using n loop b cw c_not
      by (simp add: skip_ws_Cons)
  qed
next
  case (JObj kvs)
  from JObj.prems(2) obtain m where n: "n = Suc m" by (cases n) auto
  show ?case
  proof (cases "kvs = []")
    case True
    then show ?thesis using n by (simp add: skip_ws_Cons)
  next
    case False
    let ?members = "py_join '', '' (map member_text kvs)"
    have loop: "object_loop m (tl ?members @ CHR ''}'' # rest) [] = Some (JObj (py_dict ([] @ kvs)), rest)"
    proof (rule object_loop_dumps)
      show "\<And>kv n rest. kv \<in> set kvs \<Longrightarrow> need (snd kv) \<le> n \<Longrightarrow> follow_ok rest \<Longrightarrow>
              scan_once n (json_dumps (snd kv) @ rest) = Some (snd kv, rest)"
      proof -
        fix kv n rest
        assume a: "kv \<in> set kvs" "need (snd kv) \<le> n" "follow_ok rest"
        have "snd kv \<in> Basic_BNFs.snds kv"
          by (cases kv) simp
        moreover have "py_value (snd kv)" using JObj.prems(1) a(1) by simp
        ultimately show "scan_once n (json_dumps (snd kv) @ rest) = Some (snd kv, rest)"
          using JObj.IH[OF a(1)] a by blast
      qed
      show "\<forall>kv\<in>set kvs. py_value (snd kv)" using JObj.prems(1) by simp
      show "kvs \<noteq> []" by (rule False)
      show "sum_list (map (\<lambda>kv. need (snd kv)) kvs) + length kvs \<le> m"
        using JObj.prems(2) n by simp
    qed
    obtain kv kvs' where kvs: "kvs = kv # kvs'" using False by (cases kvs) auto
    have hdm: "?members = DQ # tl ?members"
      using kvs by (cases kv) (simp add: py_join_Cons member_text_def encode_basestring_def)
    have dist: "py_dict kvs = kvs"
      using JObj.prems(1) by (simp add: py_dict_distinct)
    have "scan_once (Suc m) (CHR ''{'' # DQ # tl ?members @ CHR ''}'' # rest) = Some (JObj kvs, rest)"
      using loop dist by (simp add: skip_ws_Cons)
    moreover have "json_dumps (JObj kvs) @ rest = CHR ''{'' # DQ # tl ?members @ CHR ''}'' # rest"
      unfolding json_dumps_obj using hdm by (metis append_Cons append_assoc append_Nil)
    ultimately show ?thesis
      using n by simp
  qed
qed

lemma length_py_join:
  "xs \<noteq> [] \<Longrightarrow> length (py_join sep xs) + length sep = sum_list (map length xs) + length sep * length xs"
proof (induction xs rule: py_join.induct)
  case (1 sep)
  then show ?case by simp
next
  case (2 sep x)
  then show ?case by simp
next
  case (3 sep x y xs)
  then show ?case by simp
qed

lemma sum_list_mono_map:
  "(\<And>x. x \<in> set xs \<Longrightarrow> f x \<le> (g x :: nat)) \<Longrightarrow> sum_list (map f xs) \<le> sum_list (map g xs)"
  by (induction xs) (auto intro: add_mono)

lemma need_le_length: "py_value v \<Longrightarrow> need v \<le> length (json_dumps v)"
proof (induction v)
  case (JInt i)
  obtain c r where "py_str_int i = c # r"
    using py_str_int_first by blast
  then show ?case by simp
next
  case (JArr vs)
  show ?case
  proof (cases "vs = []")
    case True
    then show ?thesis by simp
  next
    case False
    have le: "sum_list (map need vs) \<le> sum_list (map (\<lambda>v. length (json_dumps v)) vs)"
      by (rule sum_list_mono_map) (use JArr in simp)
    have len: "length (py_join '', '' (map json_dumps vs)) + 2 =
               sum_list (map (\<lambda>v. length (json_dumps v)) vs) + 2 * length vs"
      using length_py_join[of "map json_dumps vs" "'', ''"] False by (simp add: comp_def)
    have k: "1 \<le> length vs" using False by (cases vs) simp_all
    have a: "need (JArr vs) = 1 + sum_list (map need vs) + length vs" by simp
    have b: "length (json_dumps (JArr vs)) = length (py_join '', '' (map json_dumps vs)) + 2" by simp
    from le len k show ?thesis unfolding a b by linarith
  qed
next
  case (JObj kvs)
  show ?case
  proof (cases "kvs = []")
    case True
    then show ?thesis by simp
  next
    case False
    have le: "sum_list (map (\<lambda>kv. need (snd kv)) kvs) \<le> sum_list (map (\<lambda>kv. length (member_text kv)) kvs)"
    proof (rule sum_list_mono_map)
      fix kv assume a: "kv \<in> set kvs"
      obtain k v where kv: "kv = (k, v)" by (cases kv)
      have "v \<in> Basic_BNFs.snds kv" using kv by simp
      moreover have "py_value v" using JObj.prems a kv by auto
      ultimately have "need v \<le> length (json_dumps v)"
        using JObj.IH[OF a] by blast
      then show "need (snd kv) \<le> length (member_text kv)"
        using kv by (simp add: member_text_def)
    qed
    have len: "length (py_join '', '' (map member_text kvs)) + 2 =
               sum_list (map (\<lambda>kv. length (member_text kv)) kvs) + 2 * length kvs"
      using length_py_join[of "map member_text kvs" "'', ''"] False by (simp add: comp_def)
    have k: "1 \<le> length kvs" using False by (cases kvs) simp_all
    have a: "need (JObj kvs) = 1 + sum_list (map (\<lambda>kv. need (snd kv)) kvs) + length kvs" by simp
    have b: "length (json_dumps (JObj kvs)) = length (py_join '', '' (map member_text kvs)) + 2"
      unfolding json_dumps_obj by simp
    from le len k show ?thesis unfolding a b by linarith
  qed
qed (simp_all add: encode_basestring_def)

lemma json_loads_dumps: "py_value v \<Longrightarrow> json_loads (json_dumps v) = Some v"
proof -
  assume pv: "py_value v"
  have "need v \<le> 2 * length (json_dumps v) + 2"
    using need_le_length[OF pv] by simp
  then have "scan_once (2 * length (json_dumps v) + 2) (json_dumps v @ []) = Some (v, [])"
    by (intro scan_once_dumps pv) simp_all
  moreover have "skip_ws (json_dumps v) = json_dumps v"
    using skip_ws_dumps[OF pv, of "[]"] by simp
  ultimately show ?thesis
    by (simp add: json_loads_def skip_ws_def)
qed

subsection \<open>Shape of the encoder's output\<close>

lemma no_control_simps [simp]:
  "no_control []"
  "no_control (c # s) \<longleftrightarrow> 32 \<le> py_ord c \<and> no_control s"
  "no_control (s @ t) \<longleftrightarrow> no_control s \<and> no_control t"
  by (auto simp: no_control_def)

lemma py_ord_hex_digit: "d < 16 \<Longrightarrow> 32 \<le> py_ord (hex_digit d)"
  by (simp add: hex_digit_def py_ord_char_of)

lemma no_control_escape_char: "no_control (escape_char c)"
proof -
  have a: "py_ord c div 16 < 16" using py_ord_less[of c] by simp
  have b: "py_ord c mod 16 < 16" by simp
  show ?thesis
    using py_ord_hex_digit[OF a] py_ord_hex_digit[OF b]
    by (simp add: escape_char_def) (simp add: py_ord_def)
qed

lemma no_control_concat: "(\<And>x. x \<in> set xs \<Longrightarrow> no_control x) \<Longrightarrow> no_control (concat xs)"
  by (induction xs) auto

lemma no_control_encode: "no_control (encode_basestring s)"
proof -
  have "no_control (concat (map escape_char s))"
    by (rule no_control_concat) (auto simp: no_control_escape_char)
  then show ?thesis
    by (simp add: encode_basestring_def) (simp add: py_ord_def)
qed

lemma no_control_py_join:
  "no_control sep \<Longrightarrow> (\<And>x. x \<in> set xs \<Longrightarrow> no_control x) \<Longrightarrow> no_control (py_join sep xs)"
  by (induction sep xs rule: py_join.induct) auto

lemma no_control_digits: "no_control (py_str_nat n)"
  unfolding no_control_def
proof
  fix c assume "c \<in> set (py_str_nat n)"
  then have "is_digit c" by (rule py_str_nat_digits)
  then show "32 \<le> py_ord c" by (simp add: is_digit_def)
qed

lemma no_control_sep: "no_control '', ''" "no_control '': ''"
  by (simp_all add: py_ord_def)

lemma no_control_dumps: "py_value v \<Longrightarrow> no_control (json_dumps v)"
proof (induction v)
  case JNull
  show ?case by (simp add: py_ord_def)
next
  case (JBool b)
  show ?case by (simp add: py_ord_def)
next
  case (JInt i)
  show ?case by (simp add: py_str_int_def no_control_digits) (simp add: py_ord_def)
next
  case (JFloat lit)
  then show ?case by simp
next
  case (JStr s)
  show ?case by (simp add: no_control_encode)
next
  case (JArr vs)
  have "no_control (py_join '', '' (map json_dumps vs))"
    by (rule no_control_py_join[OF no_control_sep(1)]) (use JArr in auto)
  then show ?case by simp (simp add: py_ord_def)
next
  case (JObj kvs)
  have "no_control (py_join '', '' (map member_text kvs))"
  proof (rule no_control_py_join[OF no_control_sep(1)])
    fix x assume "x \<in> set (map member_text kvs)"
    then obtain kv where kv: "kv \<in> set kvs" "x = member_text kv" by auto
    obtain k v where p: "kv = (k, v)" by (cases kv)
    have "v \<in> Basic_BNFs.snds kv" using p by simp
    moreover have "py_value v" using JObj.prems kv p by auto
    ultimately have "no_control (json_dumps v)" using JObj.IH[OF kv(1)] by blast
    then show "no_control x"
      using kv p no_control_sep(2) by (simp add: member_text_def no_control_encode)
  qed
  then show ?case unfolding json_dumps_obj by simp (simp add: py_ord_def)
qed

lemma json_dumps_last: "py_value v \<Longrightarrow> json_dumps v \<noteq> [] \<and> \<not> py_isspace (last (json_dumps v))"
proof (cases v)
  case (JInt i)
  obtain c r where s: "py_str_int i = c # r"
    using py_str_int_first by blast
  have "last (py_str_int i) \<in> set (py_str_nat (nat \<bar>i\<bar>))"
    using last_in_set[OF py_str_nat_nonempty[of "nat \<bar>i\<bar>"]] py_str_nat_nonempty[of "nat \<bar>i\<bar>"]
    by (auto simp: py_str_int_def abs_if)
  then have "is_digit (last (py_str_int i))"
    by (rule py_str_nat_digits)
  then show ?thesis
    using JInt s is_digit_not_space by simp
next
  case (JBool b)
  then show ?thesis by (cases b) (simp_all add: py_isspace_def py_ord_def)
qed (auto simp: encode_basestring_def py_isspace_def py_ord_def)

subsection \<open>The decoder never lacks fuel\<close>

lemma skip_ws_le: "length (skip_ws s) \<le> length s"
  by (simp add: skip_ws_def length_dropWhile_le)

lemma scanstring_shorter: "scanstring s = Some (str, r) \<Longrightarrow> length r < length s"
proof (induction s arbitrary: str rule: scanstring.induct)
  case 1
  then show ?case by simp
next
  case (2 c s)
  show ?case
  proof (cases "c = DQ")
    case True
    with 2(4) show ?thesis by simp
  next
    case nq: False
    show ?thesis
    proof (cases "c = BSL")
      case True
      show ?thesis
      proof (cases s)
        case Nil
        with 2(4) nq True show ?thesis by simp
      next
        case (Cons e s')
        show ?thesis
        proof (cases "e = CHR ''u''")
          case u: True
          from 2(4) nq True Cons u obtain uni str' where
            d: "decode_uXXXX (take 4 s') = Some uni" "uni < 256"
               "scanstring (drop 4 s') = Some (str', r)"
            by (auto split: option.splits if_splits)
          have "length r < length (drop 4 s')"
            by (rule 2(1)[OF nq True Cons u d(1,2) d(3)])
          then show ?thesis using Cons by simp
        next
          case nu: False
          from 2(4) nq True Cons nu obtain ch str' where
            d: "backslash e = Some ch" "scanstring s' = Some (str', r)"
            by (auto split: option.splits)
          have "length r < length s'"
            by (rule 2(2)[OF nq True Cons nu d(1) d(2)])
          then show ?thesis using Cons by simp
        qed
      qed
    next
      case nb: False
      from 2(4) nq nb obtain str' where d: "\<not> py_ord c < 32" "scanstring s = Some (str', r)"
        by (auto split: if_splits)
      have "length r < length s"
        by (rule 2(3)[OF nq nb d(1) d(2)])
      then show ?thesis by simp
    qed
  qed
qed

lemma match_frac_le: "length (snd (match_frac r)) \<le> length r"
proof (cases r)
  case Nil
  then show ?thesis by (simp add: match_frac_def)
next
  case (Cons c t)
  show ?thesis
  proof (cases "c = CHR ''.'' \<and> takeWhile is_digit t \<noteq> []")
    case True
    then have "match_frac r = (c # takeWhile is_digit t, dropWhile is_digit t)"
      using Cons by (simp add: match_frac_def)
    then show ?thesis
      using Cons length_dropWhile_le[of is_digit t] by simp
  next
    case False
    then have "match_frac r = ([], r)"
      using Cons by (simp add: match_frac_def)
    then show ?thesis by simp
  qed
qed

lemma exp_sign_le: "length (snd (exp_sign r)) \<le> length r"
  by (cases r) (simp_all add: exp_sign_def)

lemma match_exp_unfold:
  "match_exp (c # t) =
     (if c = CHR ''e'' \<or> c = CHR ''E'' then
        (if takeWhile is_digit (snd (exp_sign t)) \<noteq> []
         then (c # fst (exp_sign t) @ takeWhile is_digit (snd (exp_sign t)),
               dropWhile is_digit (snd (exp_sign t)))
         else ([], c # t))
      else ([], c # t))"
  unfolding match_exp_def exp_sign_def
  by (simp add: Let_def split: list.split prod.split)

lemma match_exp_le: "length (snd (match_exp r)) \<le> length r"
proof (cases r)
  case Nil
  then show ?thesis by (simp add: match_exp_def)
next
  case (Cons c t)
  have "length (dropWhile is_digit (snd (exp_sign t))) \<le> length t"
    using length_dropWhile_le[of is_digit "snd (exp_sign t)"] exp_sign_le[of t] by simp
  then show ?thesis
    unfolding Cons match_exp_unfold by simp
qed

lemma number_sign_le: "length (snd (number_sign s)) \<le> length s"
  by (cases s) (simp_all add: number_sign_def)

lemma int_digits_shorter: "is_digit d \<Longrightarrow> length (snd (int_digits d t)) \<le> length t"
  using length_dropWhile_le[of is_digit t] by (simp add: int_digits_def)

lemma match_number_unfold:
  "match_number s =
     (case snd (number_sign s) of
        [] \<Rightarrow> None
      | d # t \<Rightarrow>
          if is_digit d then
            Some (fst (number_sign s) @ fst (int_digits d t),
                  fst (match_frac (snd (int_digits d t))),
                  fst (match_exp (snd (match_frac (snd (int_digits d t))))),
                  snd (match_exp (snd (match_frac (snd (int_digits d t))))))
          else None)"
  unfolding match_number_def number_sign_def int_digits_def
  by (simp add: Let_def split: list.split prod.split)

lemma match_number_shorter:
  assumes "match_number s = Some (i, f, e, r)"
  shows "length r < length s"
proof -
  from assms obtain d t where s1: "snd (number_sign s) = d # t" and dg: "is_digit d"
    and r: "r = snd (match_exp (snd (match_frac (snd (int_digits d t)))))"
    unfolding match_number_unfold by (auto split: list.splits if_splits)
  have "length r \<le> length (snd (match_frac (snd (int_digits d t))))"
    unfolding r by (rule match_exp_le)
  also have "\<dots> \<le> length (snd (int_digits d t))"
    by (rule match_frac_le)
  also have "\<dots> \<le> length t"
    by (rule int_digits_shorter[OF dg])
  also have "\<dots> < length (snd (number_sign s))"
    unfolding s1 by simp
  also have "\<dots> \<le> length s"
    by (rule number_sign_le)
  finally show ?thesis .
qed

lemma scan_once_Suc:
  "scan_once (Suc n) (c # r) =
     (if c = DQ then map_option (\<lambda>(str, r'). (JStr str, r')) (scanstring r)
      else if c = CHR ''{'' then
        (case skip_ws r of
           [] \<Rightarrow> None
         | d # r' \<Rightarrow>
             if d = CHR ''}'' then Some (JObj [], r')
             else if d = DQ then object_loop n r' []
             else None)
      else if c = CHR ''['' then
        (case skip_ws r of
           [] \<Rightarrow> None
         | d # r' \<Rightarrow>
             if d = CHR '']'' then Some (JArr [], r')
             else array_loop n (d # r') [])
      else scan_atom (c # r))"
  by (simp add: scan_atom_def)

lemma scan_once_Nil: "scan_once n [] = None"
  by (cases n) simp_all

lemma scan_atom_shorter:
  assumes "scan_atom s = Some (v, r)"
  shows "length r < length s"
proof (cases s)
  case Nil
  with assms show ?thesis by (simp add: scan_atom_def)
next
  case (Cons c t)
  consider (null) "c = CHR ''n'' \<and> take 4 s = ''null''"
    | (true) "\<not> (c = CHR ''n'' \<and> take 4 s = ''null'')" "c = CHR ''t'' \<and> take 4 s = ''true''"
    | (false) "\<not> (c = CHR ''n'' \<and> take 4 s = ''null'')" "\<not> (c = CHR ''t'' \<and> take 4 s = ''true'')"
        "c = CHR ''f'' \<and> take 5 s = ''false''"
    | (other) "\<not> (c = CHR ''n'' \<and> take 4 s = ''null'')" "\<not> (c = CHR ''t'' \<and> take 4 s = ''true'')"
        "\<not> (c = CHR ''f'' \<and> take 5 s = ''false'')"
    by blast
  then show ?thesis
  proof cases
    case null
    then have "r = drop 4 s" using assms Cons by (simp add: scan_atom_def)
    then show ?thesis using Cons by simp
  next
    case true
    then have "r = drop 4 s" using assms Cons by (simp add: scan_atom_def)
    then show ?thesis using Cons by simp
  next
    case false
    then have "r = drop 5 s" using assms Cons by (simp add: scan_atom_def)
    then show ?thesis using Cons by simp
  next
    case other
    show ?thesis
    proof (cases "match_number s")
      case (Some q)
      obtain i f e rest where q: "q = (i, f, e, rest)" by (cases q) auto
      have "r = rest"
        using assms Cons other Some q by (simp add: scan_atom_def split: if_splits)
      then show ?thesis
        using match_number_shorter[of s i f e rest] Some q by simp
    next
      case None
      have "r = drop 3 s \<or> r = drop 8 s \<or> r = drop 9 s"
        using assms Cons other None by (simp add: scan_atom_def split: if_splits)
      then show ?thesis using Cons by auto
    qed
  qed
qed

lemma scan_consumes:
  "(scan_once n s = Some (v, r) \<longrightarrow> length r < length s) \<and>
   (array_loop n s vals = Some (v, r) \<longrightarrow> length r < length s) \<and>
   (object_loop n s pairs = Some (v, r) \<longrightarrow> length r < length s)"
proof (induction n arbitrary: s vals pairs v r)
  case 0
  show ?case by simp
next
  case (Suc n)
  note IHs = Suc.IH[THEN conjunct1, rule_format]
  note IHa = Suc.IH[THEN conjunct2, THEN conjunct1, rule_format]
  note IHo = Suc.IH[THEN conjunct2, THEN conjunct2, rule_format]
  have scan: "length r < length s" if h: "scan_once (Suc n) s = Some (v, r)"
  proof (cases s)
    case Nil
    with h show ?thesis by simp
  next
    case (Cons c t)
    note u = h[unfolded Cons scan_once_Suc]
    consider (str) "c = DQ" | (obj) "c \<noteq> DQ" "c = CHR ''{''"
      | (arr) "c \<noteq> DQ" "c \<noteq> CHR ''{''" "c = CHR ''[''"
      | (atom) "c \<noteq> DQ" "c \<noteq> CHR ''{''" "c \<noteq> CHR ''[''"
      by blast
    then show ?thesis
    proof cases
      case str
      with u obtain x where "scanstring t = Some (x, r)" by auto
      then show ?thesis using scanstring_shorter Cons by fastforce
    next
      case obj
      with u obtain d r' where k: "skip_ws t = d # r'"
        by (cases "skip_ws t") auto
      have le: "length r' < length t"
        using skip_ws_le[of t] k by simp
      show ?thesis
      proof (cases "d = CHR ''}''")
        case True
        with u obj k have "r = r'" by simp
        then show ?thesis using le Cons by simp
      next
        case False
        with u obj k have "object_loop n r' [] = Some (v, r)"
          by (simp split: if_splits)
        then have "length r < length r'" by (rule IHo)
        then show ?thesis using le Cons by simp
      qed
    next
      case arr
      with u obtain d r' where k: "skip_ws t = d # r'"
        by (cases "skip_ws t") auto
      have le: "length (d # r') \<le> length t"
        using skip_ws_le[of t] k by simp
      show ?thesis
      proof (cases "d = CHR '']''")
        case True
        with u arr k have "r = r'" by simp
        then show ?thesis using le Cons by simp
      next
        case False
        with u arr k have "array_loop n (d # r') [] = Some (v, r)"
          by simp
        then have "length r < length (d # r')" by (rule IHa)
        then show ?thesis using le Cons by simp
      qed
    next
      case atom
      with u have "scan_atom (c # t) = Some (v, r)" by simp
      then show ?thesis using scan_atom_shorter Cons by blast
    qed
  qed
  have arr: "length r < length s" if h: "array_loop (Suc n) s vals = Some (v, r)"
  proof -
    from h obtain v1 r1 where a: "scan_once n s = Some (v1, r1)"
      by (cases "scan_once n s") auto
    have l1: "length r1 < length s" using a by (rule IHs)
    from h a obtain c r' where k: "skip_ws r1 = c # r'"
      by (cases "skip_ws r1") auto
    have l2: "length r' < length r1"
      using skip_ws_le[of r1] k by simp
    show ?thesis
    proof (cases "c = CHR '']''")
      case True
      with h a k have "r = r'" by simp
      then show ?thesis using l1 l2 by simp
    next
      case False
      with h a k have "array_loop n (skip_ws r') (vals @ [v1]) = Some (v, r)"
        by (simp split: if_splits)
      then have "length r < length (skip_ws r')" by (rule IHa)
      then show ?thesis using l1 l2 skip_ws_le[of r'] by simp
    qed
  qed
  have obj: "length r < length s" if h: "object_loop (Suc n) s pairs = Some (v, r)"
  proof -
    from h obtain key r0 where a: "scanstring s = Some (key, r0)"
      by (cases "scanstring s") auto
    have l0: "length r0 < length s" using a by (rule scanstring_shorter)
    from h a obtain c r1 where k1: "skip_ws r0 = c # r1"
      by (cases "skip_ws r0") auto
    have l1: "length r1 < length r0" using skip_ws_le[of r0] k1 by simp
    from h a k1 have c: "c = CHR '':''" by (simp split: if_splits)
    from h a k1 c obtain v1 r2 where b: "scan_once n (skip_ws r1) = Some (v1, r2)"
      by (cases "scan_once n (skip_ws r1)") auto
    have l2: "length r2 < length r1"
      using IHs[OF b] skip_ws_le[of r1] by simp
    from h a k1 c b obtain d r3 where k3: "skip_ws r2 = d # r3"
      by (cases "skip_ws r2") auto
    have l3: "length r3 < length r2" using skip_ws_le[of r2] k3 by simp
    show ?thesis
    proof (cases "d = CHR ''}''")
      case True
      with h a k1 c b k3 have "r = r3" by simp
      then show ?thesis using l0 l1 l2 l3 by simp
    next
      case False
      with h a k1 c b k3 obtain q r4 where k4: "skip_ws r3 = q # r4"
        by (cases "skip_ws r3") (auto split: if_splits)
      have l4: "length r4 < length r3" using skip_ws_le[of r3] k4 by simp
      from h a k1 c b k3 False k4 have "object_loop n r4 (pairs @ [(key, v1)]) = Some (v, r)"
        by (simp split: if_splits)
      then have "length r < length r4" by (rule IHo)
      then show ?thesis using l0 l1 l2 l3 l4 by simp
    qed
  qed
  from scan arr obj show ?case by blast
qed

lemma fuel_enough:
  "(2 * length s + 1 \<le> n \<longrightarrow> n \<le> m \<longrightarrow> scan_once m s = scan_once n s) \<and>
   (2 * length s + 2 \<le> n \<longrightarrow> n \<le> m \<longrightarrow> array_loop m s vals = array_loop n s vals) \<and>
   (2 * length s + 2 \<le> n \<longrightarrow> n \<le> m \<longrightarrow> object_loop m s pairs = object_loop n s pairs)"
proof (induction n arbitrary: s vals pairs m)
  case 0
  show ?case by simp
next
  case (Suc n)
  note IHs = Suc.IH[THEN conjunct1, rule_format]
  note IHa = Suc.IH[THEN conjunct2, THEN conjunct1, rule_format]
  note IHo = Suc.IH[THEN conjunct2, THEN conjunct2, rule_format]
  note sh = scan_consumes[THEN conjunct1, rule_format]
  have scan: "scan_once m s = scan_once (Suc n) s"
    if b: "2 * length s + 1 \<le> Suc n" and le: "Suc n \<le> m"
  proof -
    from le obtain m' where m: "m = Suc m'" and le': "n \<le> m'"
      by (cases m) auto
    show ?thesis
    proof (cases s)
      case Nil
      then show ?thesis by (simp add: scan_once_Nil)
    next
      case (Cons c t)
      have lt: "length (skip_ws t) \<le> length t" by (rule skip_ws_le)
      have o: "object_loop m' r' [] = object_loop n r' []" if "skip_ws t = d # r'" for d r'
      proof (rule IHo[OF _ le'])
        show "2 * length r' + 2 \<le> n" using that lt b Cons by simp
      qed
      have a: "array_loop m' (d # r') [] = array_loop n (d # r') []" if "skip_ws t = d # r'" for d r'
      proof (rule IHa[OF _ le'])
        show "2 * length (d # r') + 2 \<le> n" using that lt b Cons by simp
      qed
      show ?thesis
        unfolding m Cons scan_once_Suc
        by (cases "skip_ws t") (simp_all add: o a)
    qed
  qed
  have arr: "array_loop m s vals = array_loop (Suc n) s vals"
    if b: "2 * length s + 2 \<le> Suc n" and le: "Suc n \<le> m"
  proof -
    from le obtain m' where m: "m = Suc m'" and le': "n \<le> m'"
      by (cases m) auto
    have s1: "scan_once m' s = scan_once n s"
      by (rule IHs[OF _ le']) (use b in simp)
    show ?thesis
    proof (cases "scan_once n s")
      case None
      then show ?thesis unfolding m using s1 by simp
    next
      case (Some p)
      obtain v1 r1 where p: "p = (v1, r1)" by (cases p)
      have l1: "length r1 < length s" using Some p sh by blast
      have rec: "array_loop m' (skip_ws r') (vals @ [v1]) = array_loop n (skip_ws r') (vals @ [v1])"
        if "skip_ws r1 = c # r'" for c r'
      proof (rule IHa[OF _ le'])
        have "length r' < length r1" using skip_ws_le[of r1] that by simp
        then show "2 * length (skip_ws r') + 2 \<le> n"
          using skip_ws_le[of r'] l1 b by simp
      qed
      show ?thesis
        unfolding m using s1 Some p
        by (cases "skip_ws r1") (simp_all add: rec)
    qed
  qed
  have obj: "object_loop m s pairs = object_loop (Suc n) s pairs"
    if b: "2 * length s + 2 \<le> Suc n" and le: "Suc n \<le> m"
  proof -
    from le obtain m' where m: "m = Suc m'" and le': "n \<le> m'"
      by (cases m) auto
    show ?thesis
    proof (cases "scanstring s")
      case None
      then show ?thesis unfolding m by simp
    next
      case (Some p)
      obtain key r0 where p: "p = (key, r0)" by (cases p)
      have l0: "length r0 < length s" using Some p scanstring_shorter by blast
      show ?thesis
      proof (cases "skip_ws r0")
        case Nil
        then show ?thesis unfolding m using Some p by simp
      next
        case (Cons c r1)
        have l1: "length r1 < length r0" using skip_ws_le[of r0] Cons by simp
        have s1: "scan_once m' (skip_ws r1) = scan_once n (skip_ws r1)"
          by (rule IHs[OF _ le']) (use skip_ws_le[of r1] l0 l1 b in simp)
        show ?thesis
        proof (cases "scan_once n (skip_ws r1)")
          case None
          then show ?thesis unfolding m using Some p Cons s1 by simp
        next
          case inner: (Some p2)
          obtain v1 r2 where p2: "p2 = (v1, r2)" by (cases p2)
          have l2: "length r2 < length r1"
            using sh[of n "skip_ws r1" v1 r2] inner p2 skip_ws_le[of r1] by simp
          have rec: "object_loop m' r4 (pairs @ [(key, v1)]) = object_loop n r4 (pairs @ [(key, v1)])"
            if "skip_ws r2 = d # r3" "skip_ws r3 = q # r4" for d r3 q r4
          proof (rule IHo[OF _ le'])
            have "length r3 < length r2" using skip_ws_le[of r2] that(1) by simp
            moreover have "length r4 < length r3" using skip_ws_le[of r3] that(2) by simp
            ultimately show "2 * length r4 + 2 \<le> n"
              using l0 l1 l2 b by simp
          qed
          show ?thesis
          proof (cases "skip_ws r2")
            case Nil
            then show ?thesis unfolding m using Some p Cons s1 inner p2 by simp
          next
            case k3: (Cons d r3)
            show ?thesis
              unfolding m using Some p Cons s1 inner p2 k3
              by (cases "skip_ws r3") (simp_all add: rec)
          qed
        qed
      qed
    qed
  qed
  from scan arr obj show ?case by blast
qed

lemma json_loads_fuel:
  "2 * length s + 2 \<le> n \<Longrightarrow>
   json_loads s =
     (case scan_once n (skip_ws s) of
        None \<Rightarrow> None
      | Some (v, r) \<Rightarrow> if skip_ws r = [] then Some v else None)"
proof -
  assume n: "2 * length s + 2 \<le> n"
  have "scan_once n (skip_ws s) = scan_once (2 * length s + 2) (skip_ws s)"
    by (rule fuel_enough[THEN conjunct1, rule_format]) (use skip_ws_le[of s] n in simp_all)
  then show ?thesis
    by (simp add: json_loads_def)
qed

subsection \<open>Stripping and line splitting\<close>

lemma strip_snoc_space: "py_isspace c \<Longrightarrow> strip (s @ [c]) = strip s"
proof (cases "\<forall>x\<in>set s. py_isspace x")
  case True
  assume c: "py_isspace c"
  from True have a: "dropWhile py_isspace s = []" by simp
  from True c have b: "dropWhile py_isspace (s @ [c]) = []" by simp
  show ?thesis
    by (simp add: strip_def lstrip_def rstrip_def a b)
next
  case False
  assume c: "py_isspace c"
  from False have "dropWhile py_isspace (s @ [c]) = dropWhile py_isspace s @ [c]"
    by (auto simp: dropWhile_append1)
  with c show ?thesis
    by (simp add: strip_def lstrip_def rstrip_def)
qed

lemma strip_id:
  assumes "s \<noteq> []" "\<not> py_isspace (hd s)" "\<not> py_isspace (last s)"
  shows "strip s = s"
proof -
  have l: "dropWhile py_isspace s = s"
    using assms(1,2) by (cases s) simp_all
  have "rev s \<noteq> []" "\<not> py_isspace (hd (rev s))"
    using assms(1,3) by (simp_all add: hd_rev)
  then have r: "dropWhile py_isspace (rev s) = rev s"
    by (cases "rev s") simp_all
  show ?thesis
    by (simp add: strip_def lstrip_def rstrip_def l r)
qed

lemma isspace_LF: "py_isspace LF"
  by (simp add: py_isspace_def py_ord_def)

lemma strip_dumps_line:
  assumes "py_value v"
  shows "strip (json_dumps v @ [LF]) = json_dumps v"
proof -
  obtain c r where f: "json_dumps v = c # r" "\<not> py_isspace c"
    using json_dumps_first[OF assms] by blast
  have "strip (json_dumps v) = json_dumps v"
    by (rule strip_id) (use f json_dumps_last[OF assms] in simp_all)
  then show ?thesis
    by (simp add: strip_snoc_space[OF isspace_LF])
qed

lemma universal_newlines_id: "CR \<notin> set t \<Longrightarrow> universal_newlines t = t"
  by (induction t rule: universal_newlines.induct) auto

lemma universal_newlines_append:
  "a = [] \<or> last a \<noteq> CR \<Longrightarrow> universal_newlines (a @ b) = universal_newlines a @ universal_newlines b"
proof (induction a rule: universal_newlines.induct)
  case 1
  then show ?case by simp
next
  case (2 c)
  then show ?case by (cases b) simp_all
next
  case (3 c d s)
  show ?case
  proof (cases "c = CR \<and> d = LF")
    case True
    then have "s = [] \<or> last s \<noteq> CR"
      using 3(4) by (cases s) auto
    then show ?thesis
      using True 3(1) by simp
  next
    case False
    have "d # s = [] \<or> last (d # s) \<noteq> CR" using 3(4) by simp
    then show ?thesis
      using False 3(2,3) by (cases "c = CR") simp_all
  qed
qed

lemma universal_newlines_ends_LF:
  "t \<noteq> [] \<Longrightarrow> last t = LF \<Longrightarrow> \<exists>z. universal_newlines t = z @ [LF]"
proof (induction t rule: universal_newlines.induct)
  case 1
  then show ?case by simp
next
  case (2 c)
  then show ?case by simp
next
  case (3 c d s)
  show ?case
  proof (cases s)
    case Nil
    then show ?thesis
      using 3(5) by (cases "c = CR") auto
  next
    case (Cons e s')
    show ?thesis
    proof (cases "c = CR \<and> d = LF")
      case True
      then obtain z where "universal_newlines s = z @ [LF]"
        using 3(1) 3(5) Cons by auto
      then show ?thesis using True by simp
    next
      case False
      obtain z where z: "universal_newlines (d # s) = z @ [LF]"
        using 3(2,3)[OF False] False 3(5) Cons by (cases "c = CR") auto
      show ?thesis
      proof (cases "c = CR")
        case True
        then show ?thesis using False z by (intro exI[of _ "LF # z"]) simp
      next
        case False
        then show ?thesis using z by (intro exI[of _ "c # z"]) simp
      qed
    qed
  qed
qed

lemma lines_from_line:
  "LF \<notin> set l \<Longrightarrow> lines_from cur (l @ LF # s) = (cur @ l @ [LF]) # lines_from [] s"
  by (induction l arbitrary: cur) auto

lemma lines_from_append:
  "lines_from cur (x @ LF # t) = lines_from cur (x @ [LF]) @ lines_from [] t"
  by (induction x arbitrary: cur) auto

lemma lines_from_unlines:
  "\<forall>l\<in>set ls. LF \<notin> set l \<Longrightarrow>
   lines_from [] (concat (map (\<lambda>l. l @ [LF]) ls)) = map (\<lambda>l. l @ [LF]) ls"
proof (induction ls)
  case Nil
  show ?case by simp
next
  case (Cons l ls)
  then show ?case
    using lines_from_line[of l "[]" "concat (map (\<lambda>l. l @ [LF]) ls)"] by simp
qed

lemma text_lines_unlines:
  assumes "\<forall>l\<in>set ls. LF \<notin> set l \<and> CR \<notin> set l"
  shows "text_lines (concat (map (\<lambda>l. l @ [LF]) ls)) = map (\<lambda>l. l @ [LF]) ls"
proof -
  have "CR \<notin> set (concat (map (\<lambda>l. l @ [LF]) ls))"
    using assms by auto
  then show ?thesis
    using assms by (simp add: text_lines_def universal_newlines_id lines_from_unlines)
qed

lemma text_lines_append:
  assumes "old = [] \<or> last old = LF"
  shows "text_lines (old @ new) = text_lines old @ text_lines new"
proof (cases "old = []")
  case True
  then show ?thesis by (simp add: text_lines_def)
next
  case False
  with assms have l: "last old = LF" by simp
  then have "old = [] \<or> last old \<noteq> CR" by simp
  then have u: "universal_newlines (old @ new) = universal_newlines old @ universal_newlines new"
    by (rule universal_newlines_append)
  obtain z where z: "universal_newlines old = z @ [LF]"
    using universal_newlines_ends_LF[OF False l] by blast
  show ?thesis
    unfolding text_lines_def u z
    using lines_from_append[of "[]" z "universal_newlines new"] by simp
qed

subsection \<open>The card log\<close>

lemma load_loop_map_filter: "load_loop ls acc = acc @ List.map_filter parse_line ls"
proof (induction ls arbitrary: acc)
  case Nil
  show ?case by (simp add: List.map_filter_simps)
next
  case (Cons l ls)
  show ?case
    by (simp add: Let_def Cons.IH List.map_filter_simps parse_line_def split: option.split)
qed

lemma map_filter_append: "List.map_filter f (xs @ ys) = List.map_filter f xs @ List.map_filter f ys"
  by (simp add: List.map_filter_def)

lemma json_loads_empty: "json_loads [] = None"
  by (simp add: json_loads_def skip_ws_def)

lemma parse_line_eq: "parse_line l = json_loads (strip l)"
  by (simp add: parse_line_def json_loads_empty)

lemma map_of_None_iff: "map_of al k = None \<longleftrightarrow> k \<notin> fst ` set al"
  by (simp add: map_of_eq_None_iff)

lemma load_cards_eq:
  assumes "cards_csv_path a \<notin> set (dirs s)"
  shows "load_cards a s = Inr (List.map_filter parse_line (text_lines (log_text a s)))"
proof (cases "map_of (files s) (cards_csv_path a)")
  case None
  then have "\<not> path_exists s (cards_csv_path a)"
    using assms by (simp add: path_exists_def map_of_None_iff)
  then show ?thesis
    using None by (simp add: load_cards_def log_text_def text_lines_def List.map_filter_simps)
next
  case (Some t)
  then have "path_exists s (cards_csv_path a)"
    by (auto simp: path_exists_def dest: map_of_SomeD intro: rev_image_eqI)
  then show ?thesis
    using Some assms
    by (simp add: load_cards_def log_text_def read_text_def load_loop_map_filter)
qed

lemma load_cards_directory:
  "cards_csv_path a \<in> set (dirs s) \<Longrightarrow> load_cards a s = Inl IsADirectoryError"
  by (simp add: load_cards_def path_exists_def read_text_def)

lemma append_card_effect:
  assumes "append_card a s c = Inr s'"
  shows "cards_csv_path a \<notin> set (dirs s)"
    and "log_text a s' = log_text a s @ json_dumps c @ [LF]"
    and "dirs s' = dirs s"
    and "\<And>p. p \<noteq> cards_csv_path a \<Longrightarrow> map_of (files s') p = map_of (files s) p"
  using assms
  by (auto simp: append_card_def append_text_def log_text_def update_conv' Let_def split: if_splits)

lemma append_card_succeeds:
  "cards_csv_path a \<notin> set (dirs s) \<Longrightarrow> \<exists>s'. append_card a s c = Inr s'"
  by (simp add: append_card_def append_text_def Let_def)

lemma parse_dumps_line: "py_value v \<Longrightarrow> parse_line (json_dumps v @ [LF]) = Some v"
  by (simp add: parse_line_eq strip_dumps_line json_loads_dumps)

lemma no_control_no_newline: "no_control t \<Longrightarrow> LF \<notin> set t \<and> CR \<notin> set t"
  by (auto simp: no_control_def py_ord_def)

lemma text_lines_dumps:
  assumes "py_value v"
  shows "text_lines (json_dumps v @ [LF]) = [json_dumps v @ [LF]]"
proof -
  have "\<forall>l\<in>set [json_dumps v]. LF \<notin> set l \<and> CR \<notin> set l"
    using no_control_no_newline[OF no_control_dumps[OF assms]] by simp
  from text_lines_unlines[OF this] show ?thesis by simp
qed

lemma load_after_append:
  assumes "append_card a s c = Inr s'" and "py_value c" and "log_terminated a s"
  shows "load_cards a s' = Inr (List.map_filter parse_line (text_lines (log_text a s)) @ [c])"
    and "load_cards a s = Inr (List.map_filter parse_line (text_lines (log_text a s)))"
    and "log_terminated a s'"
proof -
  note e = append_card_effect[OF assms(1)]
  have d': "cards_csv_path a \<notin> set (dirs s')" using e(1,3) by simp
  have "text_lines (log_text a s') = text_lines (log_text a s) @ [json_dumps c @ [LF]]"
    unfolding e(2) using text_lines_append[of "log_text a s" "json_dumps c @ [LF]"] assms(3)
    by (simp add: log_terminated_def text_lines_dumps[OF assms(2)])
  then show "load_cards a s' = Inr (List.map_filter parse_line (text_lines (log_text a s)) @ [c])"
    by (simp add: load_cards_eq[OF d'] map_filter_append List.map_filter_simps
        parse_dumps_line[OF assms(2)])
  show "load_cards a s = Inr (List.map_filter parse_line (text_lines (log_text a s)))"
    by (rule load_cards_eq[OF e(1)])
  show "log_terminated a s'"
    by (simp add: log_terminated_def e(2))
qed

lemma load_after_appends:
  "append_cards a s cs = Inr s' \<Longrightarrow> \<forall>c\<in>set cs. py_value c \<Longrightarrow> log_terminated a s \<Longrightarrow>
   cards_csv_path a \<notin> set (dirs s) \<Longrightarrow>
   load_cards a s' = Inr (List.map_filter parse_line (text_lines (log_text a s)) @ cs)"
proof (induction cs arbitrary: s)
  case Nil
  then show ?case by (simp add: load_cards_eq)
next
  case (Cons c cs)
  from Cons.prems(1) obtain s1 where s1: "append_card a s c = Inr s1" "append_cards a s1 cs = Inr s'"
    by (auto split: sum.splits)
  have pc: "py_value c" using Cons.prems(2) by simp
  note l = load_after_append[OF s1(1) pc Cons.prems(3)]
  note e = append_card_effect[OF s1(1)]
  have d1: "cards_csv_path a \<notin> set (dirs s1)" using e(1,3) by simp
  have "load_cards a s' = Inr (List.map_filter parse_line (text_lines (log_text a s1)) @ cs)"
    by (rule Cons.IH[OF s1(2) _ l(3) d1]) (use Cons.prems(2) in simp)
  moreover have "load_cards a s1 = Inr (List.map_filter parse_line (text_lines (log_text a s1)))"
    by (rule load_cards_eq[OF d1])
  ultimately show ?case
    using l(1) by simp
qed

lemma py_value_card_json: "py_value (card_json c)"
  by (auto simp: card_json_def stored_file_json_def)

lemma default_log_path: "cards_csv_path default_app = ''/var/data/submissions.csv''"
  by (simp add: cards_csv_path_def default_app_def os_path_join_def)




lemma log_terminated_missing: "\<not> path_exists s (cards_csv_path a) \<Longrightarrow> log_terminated a s"
proof -
  assume "\<not> path_exists s (cards_csv_path a)"
  then have "map_of (files s) (cards_csv_path a) = None"
    by (simp add: path_exists_def map_of_None_iff)
  then show ?thesis
    by (simp add: log_terminated_def log_text_def)
qed

lemma log_terminated_append: "append_card a s c = Inr s' \<Longrightarrow> log_terminated a s'"
  using append_card_effect(2)[of a s c s'] by (simp add: log_terminated_def)

lemma log_terminated_reachable:
  "append_cards a s cs = Inr s' \<Longrightarrow> log_terminated a s \<Longrightarrow> log_terminated a s'"
proof (induction cs arbitrary: s)
  case Nil
  then show ?case by simp
next
  case (Cons c cs)
  from Cons.prems(1) obtain s1 where s1: "append_card a s c = Inr s1" "append_cards a s1 cs = Inr s'"
    by (auto split: sum.splits)
  show ?case
    by (rule Cons.IH[OF s1(2) log_terminated_append[OF s1(1)]])
qed

text \<open>
  Claim C1. For every card record \<open>c\<close>: the dictionary of \<open>c\<close> is parsed back from
  its serialization, and when \<^const>\<open>append_card\<close> succeeds on it,
  \<^const>\<open>load_cards\<close> on the resulting log returns the records it returned before
  followed by that dictionary, so the last element equals the appended card. The log is
  one the store itself maintains: missing, empty, or ending in a line feed
  (\<^const>\<open>log_terminated\<close>). That holds of a missing log and is re-established by every
  append (lemmas \<open>log_terminated_missing\<close>, \<open>log_terminated_append\<close>), so it holds
  of every log the store has written.
\<close>

theorem append_then_load_roundtrip:
  assumes "append_card a s (card_json c) = Inr s'" and "log_terminated a s"
  shows "\<exists>old. load_cards a s = Inr old \<and> load_cards a s' = Inr (old @ [card_json c]) \<and>
               last (old @ [card_json c]) = card_json c \<and>
               json_loads (json_dumps (card_json c)) = Some (card_json c) \<and>
               log_terminated a s'"
  using load_after_append[OF assms(1) py_value_card_json assms(2)]
    json_loads_dumps[OF py_value_card_json, of c]
  by simp

theorem append_then_load_roundtrip_witness:
  "log_terminated default_app fresh_fs \<and>
   (\<exists>s'. append_card default_app fresh_fs (card_json example_card) = Inr s' \<and>
          load_cards default_app s' = Inr [card_json example_card])"
proof -
  have t: "log_terminated default_app fresh_fs"
    by (simp add: log_terminated_def log_text_def fresh_fs_def)
  have d: "cards_csv_path default_app \<notin> set (dirs fresh_fs)"
    by (simp add: default_log_path fresh_fs_def)
  obtain s' where s': "append_card default_app fresh_fs (card_json example_card) = Inr s'"
    using append_card_succeeds[OF d] by blast
  have e: "load_cards default_app fresh_fs = Inr []"
    by (simp add: load_cards_def path_exists_def default_log_path fresh_fs_def)
  show ?thesis
    using append_then_load_roundtrip[OF s' t] t s' e by auto
qed







lemma append_cards_dirs:
  "append_cards a s cs = Inr s' \<Longrightarrow> dirs s' = dirs s"
proof (induction cs arbitrary: s)
  case Nil
  then show ?case by simp
next
  case (Cons c cs)
  from Cons.prems obtain s1 where s1: "append_card a s c = Inr s1" "append_cards a s1 cs = Inr s'"
    by (auto split: sum.splits)
  show ?case
    using Cons.IH[OF s1(2)] append_card_effect(3)[OF s1(1)] by simp
qed

lemma example_log_loads:
  "load_cards default_app example_log = Inr [JObj [], JArr [JInt 1, JInt 2]]"
proof -
  have d: "cards_csv_path default_app \<notin> set (dirs example_log)"
    by (simp add: example_log_def default_log_path)
  have t: "log_text default_app example_log = ''{}'' @ [LF] @ ''{bad'' @ [LF] @ ''[1, 2]'' @ [LF]"
    by (simp add: log_text_def example_log_def default_log_path)
  have "List.map_filter parse_line (text_lines (''{}'' @ [LF] @ ''{bad'' @ [LF] @ ''[1, 2]'' @ [LF])) =
          [JObj [], JArr [JInt 1, JInt 2]]"
    by code_simp
  then show ?thesis
    unfolding load_cards_eq[OF d] t by simp
qed

text \<open>
  Claim C8. The log is append-only and ordered. A successful \<^const>\<open>append_card\<close> leaves
  the text of the log as it was and adds one line after it: the serialized card, which
  holds no line break, and a line feed; no other file and no directory changes. After the
  cards \<open>cs\<close> are appended one after the other (\<^const>\<open>append_cards\<close>),
  \<^const>\<open>load_cards\<close> returns the records it returned before, then \<open>cs\<close> in the order
  of appending: file order, oldest first.
\<close>

theorem log_append_only_ordered:
  "(append_card a s c = Inr s1 \<longrightarrow>
      log_text a s1 = log_text a s @ json_dumps c @ [LF] \<and>
      (py_value c \<longrightarrow> LF \<notin> set (json_dumps c) \<and> CR \<notin> set (json_dumps c) \<and>
                     text_lines (json_dumps c @ [LF]) = [json_dumps c @ [LF]]) \<and>
      dirs s1 = dirs s \<and>
      (\<forall>p. p \<noteq> cards_csv_path a \<longrightarrow> map_of (files s1) p = map_of (files s) p)) \<and>
   (append_cards a s cs = Inr s' \<and> (\<forall>c\<in>set cs. py_value c) \<and> log_terminated a s \<and>
    cards_csv_path a \<notin> set (dirs s) \<longrightarrow>
      (\<exists>old. load_cards a s = Inr old \<and> load_cards a s' = Inr (old @ cs)))"
proof (intro conjI impI)
  assume h: "append_card a s c = Inr s1"
  note e = append_card_effect[OF h]
  show "log_text a s1 = log_text a s @ json_dumps c @ [LF]" by (rule e(2))
  show "dirs s1 = dirs s" by (rule e(3))
  show "\<forall>p. p \<noteq> cards_csv_path a \<longrightarrow> map_of (files s1) p = map_of (files s) p"
    using e(4) by blast
  {
    assume pv: "py_value c"
    then show "LF \<notin> set (json_dumps c)" "CR \<notin> set (json_dumps c)"
      using no_control_no_newline[OF no_control_dumps] by blast+
    show "text_lines (json_dumps c @ [LF]) = [json_dumps c @ [LF]]"
      by (rule text_lines_dumps[OF pv])
  }
next
  assume h: "append_cards a s cs = Inr s' \<and> (\<forall>c\<in>set cs. py_value c) \<and> log_terminated a s \<and>
    cards_csv_path a \<notin> set (dirs s)"
  then have "load_cards a s' = Inr (List.map_filter parse_line (text_lines (log_text a s)) @ cs)"
    using load_after_appends[of a s cs s'] by blast
  moreover have "load_cards a s = Inr (List.map_filter parse_line (text_lines (log_text a s)))"
    using load_cards_eq[of a s] h by blast
  ultimately show "\<exists>old. load_cards a s = Inr old \<and> load_cards a s' = Inr (old @ cs)"
    by blast
qed

theorem log_append_only_ordered_witness:
  "log_terminated default_app example_log \<and>
   cards_csv_path default_app \<notin> set (dirs example_log) \<and>
   py_value (JStr ''first'') \<and> py_value (card_json example_card) \<and>
   (\<exists>s'. append_cards default_app example_log [JStr ''first'', card_json example_card] = Inr s' \<and>
      load_cards default_app s' =
        Inr [JObj [], JArr [JInt 1, JInt 2], JStr ''first'', card_json example_card])"
proof -
  have t: "log_terminated default_app example_log"
    by (simp add: log_terminated_def log_text_def example_log_def default_log_path)
  have d: "cards_csv_path default_app \<notin> set (dirs example_log)"
    by (simp add: example_log_def default_log_path)
  obtain s1 where s1: "append_card default_app example_log (JStr ''first'') = Inr s1"
    using append_card_succeeds[OF d] by blast
  have d1: "cards_csv_path default_app \<notin> set (dirs s1)"
    using append_card_effect(3)[OF s1] d by simp
  obtain s2 where s2: "append_card default_app s1 (card_json example_card) = Inr s2"
    using append_card_succeeds[OF d1] by blast
  have a: "append_cards default_app example_log [JStr ''first'', card_json example_card] = Inr s2"
    using s1 s2 by simp
  have p: "\<forall>c\<in>set [JStr ''first'', card_json example_card]. py_value c"
    by (simp add: py_value_card_json)
  have old: "load_cards default_app example_log = Inr [JObj [], JArr [JInt 1, JInt 2]]"
    by (rule example_log_loads)
  show ?thesis
    using log_append_only_ordered[of default_app example_log "JStr ''first''" s1
        "[JStr ''first'', card_json example_card]" s2] t d a p old s1
    by (auto simp: py_value_card_json)
qed

subsection \<open>Collision resolution\<close>

lemma unique_loop_free:
  "\<not> path_exists s (os_path_join folder (unique_loop s folder base ext candidate i))"
proof (induction s folder base ext candidate i rule: unique_loop.induct)
  case (1 s folder base ext candidate i)
  then show ?case
    by (subst unique_loop.simps) simp
qed

lemma unique_loop_result:
  "(\<not> path_exists s (os_path_join folder candidate) \<and>
      unique_loop s folder base ext candidate i = candidate) \<or>
   (path_exists s (os_path_join folder candidate) \<and>
      (\<exists>j\<ge>i. unique_loop s folder base ext candidate i = numbered base ext j \<and>
         (\<forall>k. i \<le> k \<and> k < j \<longrightarrow> path_exists s (os_path_join folder (numbered base ext k)))))"
proof (induction s folder base ext candidate i rule: unique_loop.induct)
  case (1 s folder base ext candidate i)
  show ?case
  proof (cases "path_exists s (os_path_join folder candidate)")
    case False
    then show ?thesis by (subst unique_loop.simps) simp
  next
    case True
    have eq: "unique_loop s folder base ext candidate i =
              unique_loop s folder base ext (numbered base ext i) (i + 1)"
      using True by (subst unique_loop.simps) simp
    from 1[OF True] show ?thesis
    proof
      assume a: "\<not> path_exists s (os_path_join folder (numbered base ext i)) \<and>
                 unique_loop s folder base ext (numbered base ext i) (i + 1) = numbered base ext i"
      then show ?thesis
        using True eq by (intro disjI2 conjI exI[of _ i]) auto
    next
      assume a: "path_exists s (os_path_join folder (numbered base ext i)) \<and>
         (\<exists>j\<ge>i + 1. unique_loop s folder base ext (numbered base ext i) (i + 1) = numbered base ext j \<and>
            (\<forall>k. i + 1 \<le> k \<and> k < j \<longrightarrow> path_exists s (os_path_join folder (numbered base ext k))))"
      then obtain j where j: "i + 1 \<le> j"
          "unique_loop s folder base ext (numbered base ext i) (i + 1) = numbered base ext j"
          "\<forall>k. i + 1 \<le> k \<and> k < j \<longrightarrow> path_exists s (os_path_join folder (numbered base ext k))"
        by blast
      have "\<forall>k. i \<le> k \<and> k < j \<longrightarrow> path_exists s (os_path_join folder (numbered base ext k))"
      proof (intro allI impI)
        fix k assume "i \<le> k \<and> k < j"
        then show "path_exists s (os_path_join folder (numbered base ext k))"
          using a j(3) by (cases "k = i") auto
      qed
      then show ?thesis
        using True eq j(1,2) by (intro disjI2 conjI exI[of _ j]) auto
    qed
  qed
qed

lemma unique_filename_loop:
  "unique_filename s folder fname =
     unique_loop s folder (fst (split_ext fname)) (snd (split_ext fname)) fname 2"
  by (simp add: unique_filename_def split_ext_def Let_def split: prod.splits)

lemma after_last_dot_append:
  "CHR ''.'' \<notin> set ext \<Longrightarrow> after_last_dot (b @ CHR ''.'' # ext) = ext"
proof -
  assume n: "CHR ''.'' \<notin> set ext"
  then have t: "takeWhile (\<lambda>c. c \<noteq> CHR ''.'') (rev ext) = rev ext"
    by (auto intro: takeWhile_eq_all_conv[THEN iffD2])
  show ?thesis
    by (simp add: after_last_dot_def takeWhile_tail t)
qed

lemma no_dot_after_last_dot: "CHR ''.'' \<notin> set (after_last_dot s)"
proof
  assume "CHR ''.'' \<in> set (after_last_dot s)"
  then have "CHR ''.'' \<in> set (takeWhile (\<lambda>c. c \<noteq> CHR ''.'') (rev s))"
    by (simp add: after_last_dot_def)
  then show False
    by (auto dest: set_takeWhileD)
qed

lemma rpartition_dot_split:
  assumes "CHR ''.'' \<in> set s"
  shows "s = fst (rpartition_dot s) @ CHR ''.'' # after_last_dot s"
proof -
  let ?P = "\<lambda>c. c \<noteq> CHR ''.''"
  have "CHR ''.'' \<in> set (rev s)" using assms by simp
  then have "dropWhile ?P (rev s) \<noteq> []"
    by (simp add: dropWhile_eq_Nil_conv)
  moreover have "hd (dropWhile ?P (rev s)) = CHR ''.''"
    using hd_dropWhile[OF calculation] by simp
  ultimately have d: "dropWhile ?P (rev s) = CHR ''.'' # tl (dropWhile ?P (rev s))"
    by (cases "dropWhile ?P (rev s)") auto
  have "rev s = takeWhile ?P (rev s) @ dropWhile ?P (rev s)"
    by simp
  then have "rev s = takeWhile ?P (rev s) @ CHR ''.'' # tl (dropWhile ?P (rev s))"
    using d by simp
  then have "s = rev (takeWhile ?P (rev s) @ CHR ''.'' # tl (dropWhile ?P (rev s)))"
    by (metis rev_rev_ident)
  then show ?thesis
    using assms by (simp add: rpartition_dot_def after_last_dot_def)
qed

lemma split_ext_dot:
  assumes "CHR ''.'' \<in> set s"
  shows "split_ext s = (fst (rpartition_dot s), after_last_dot s)"
  using assms by (simp add: split_ext_def rpartition_dot_def)

lemma split_ext_no_dot: "CHR ''.'' \<notin> set s \<Longrightarrow> split_ext s = (s, [])"
  by (simp add: split_ext_def rpartition_dot_def)

lemma no_dot_digits: "CHR ''.'' \<notin> set (py_str_nat n)"
proof
  assume "CHR ''.'' \<in> set (py_str_nat n)"
  then have "is_digit (CHR ''.'')" by (rule py_str_nat_digits)
  then show False by (simp add: is_digit_def py_ord_def)
qed

lemma after_last_dot_numbered:
  "ext \<noteq> [] \<Longrightarrow> CHR ''.'' \<notin> set ext \<Longrightarrow> after_last_dot (numbered base ext j) = ext"
  using after_last_dot_append[of ext "base @ ''_'' @ py_str_nat j"]
  by (simp add: numbered_def)

lemma after_last_dot_unique:
  assumes "CHR ''.'' \<in> set fname" and "after_last_dot fname \<noteq> []"
  shows "after_last_dot (unique_filename s folder fname) = after_last_dot fname"
proof -
  let ?b = "fst (rpartition_dot fname)" and ?e = "after_last_dot fname"
  have u: "unique_filename s folder fname = unique_loop s folder ?b ?e fname 2"
    by (simp add: unique_filename_loop split_ext_dot[OF assms(1)])
  from unique_loop_result[of s folder fname ?b ?e 2]
  show ?thesis
    unfolding u using after_last_dot_numbered[OF assms(2) no_dot_after_last_dot] by auto
qed

subsection \<open>Ingestion\<close>

lemma file_save_free:
  "\<not> path_exists s p \<Longrightarrow> file_save s p b = Inr (s\<lparr>files := AList.update p b (files s)\<rparr>)"
  by (simp add: file_save_def path_exists_def)

lemma path_exists_update:
  "path_exists (s\<lparr>files := AList.update p b (files s)\<rparr>) q \<longleftrightarrow> q = p \<or> path_exists s q"
  by (auto simp: path_exists_def dom_update)

lemma map_of_update_other:
  "q \<noteq> p \<Longrightarrow> map_of (files (s\<lparr>files := AList.update p b (files s)\<rparr>)) q = map_of (files s) q"
  by (simp add: update_conv')

lemma map_of_Some_exists: "map_of (files s) p = Some d \<Longrightarrow> path_exists s p"
  by (auto simp: path_exists_def dest: map_of_SomeD intro: rev_image_eqI)

lemma allowed_file_has_ext:
  "allowed_file fname \<Longrightarrow> CHR ''.'' \<in> set fname \<and> after_last_dot fname \<noteq> [] \<and> fname \<noteq> []"
proof -
  assume a: "allowed_file fname"
  then have d: "CHR ''.'' \<in> set fname"
    by (auto simp: allowed_file_def split: if_splits)
  have "py_lower (after_last_dot fname) \<in> ALLOWED_EXTENSIONS"
    using a d by (simp add: allowed_file_def)
  moreover have "[] \<notin> ALLOWED_EXTENSIONS"
    by (simp add: ALLOWED_EXTENSIONS_def)
  ultimately have "after_last_dot fname \<noteq> []"
    by (auto simp: py_lower_def)
  with d show ?thesis by auto
qed

lemma save_uploads_skip:
  "filename f = None \<or> filename f = Some [] \<or>
     (\<exists>original. filename f = Some original \<and> secure_filename original = []) \<Longrightarrow>
   save_uploads cid folder (f # fs) s saved fl = save_uploads cid folder fs s saved fl"
  by (auto simp: Let_def)

lemma save_uploads_reject:
  "filename f = Some original \<Longrightarrow> original \<noteq> [] \<Longrightarrow> secure_filename original \<noteq> [] \<Longrightarrow>
   \<not> allowed_file (secure_filename original) \<Longrightarrow>
   save_uploads cid folder (f # fs) s saved fl =
     save_uploads cid folder fs s saved (fl @ [FileRejected original])"
  by (simp add: Let_def)

lemma save_uploads_accept:
  assumes "filename f = Some original" "original \<noteq> []" "allowed_file (secure_filename original)"
  shows "save_uploads cid folder (f # fs) s saved fl =
     save_uploads cid folder fs
       (s\<lparr>files := AList.update
           (os_path_join folder (unique_filename s folder (secure_filename original)))
           (content f) (files s)\<rparr>)
       (saved @ [\<lparr>sf_name = unique_filename s folder (secure_filename original),
                  sf_url = url_for_uploaded_file cid (unique_filename s folder (secure_filename original)),
                  sf_ext = py_lower (after_last_dot (secure_filename original))\<rparr>])
       fl"
proof -
  let ?n = "secure_filename original"
  let ?u = "unique_filename s folder ?n"
  note h = allowed_file_has_ext[OF assms(3)]
  have free: "\<not> path_exists s (os_path_join folder ?u)"
    unfolding unique_filename_loop by (rule unique_loop_free)
  have ext: "after_last_dot ?u = after_last_dot ?n"
    using after_last_dot_unique h by blast
  show ?thesis
    using assms h by (simp add: Let_def file_save_free[OF free] ext)
qed

lemma save_uploads_invariant:
  "\<exists>s' new fl'.
     save_uploads cid folder us s saved fl = Inr (s', saved @ new, fl @ fl') \<and>
     dirs s' = dirs s \<and>
     (\<forall>p d. map_of (files s) p = Some d \<longrightarrow> map_of (files s') p = Some d) \<and>
     (\<forall>p. path_exists s p \<longrightarrow> path_exists s' p) \<and>
     distinct (map sf_name new) \<and>
     (\<forall>f\<in>set new. \<not> path_exists s (os_path_join folder (sf_name f)) \<and>
                    path_exists s' (os_path_join folder (sf_name f)))"
proof (induction us arbitrary: s saved fl)
  case Nil
  show ?case by simp
next
  case (Cons f us)
  consider (skip) "filename f = None \<or> filename f = Some [] \<or>
                   (\<exists>original. filename f = Some original \<and> secure_filename original = [])"
    | (reject) original where "filename f = Some original" "original \<noteq> []"
        "secure_filename original \<noteq> []" "\<not> allowed_file (secure_filename original)"
    | (accept) original where "filename f = Some original" "original \<noteq> []"
        "allowed_file (secure_filename original)"
    by (cases "filename f") auto
  then show ?case
  proof cases
    case skip
    show ?thesis
      unfolding save_uploads_skip[OF skip] by (rule Cons.IH)
  next
    case reject
    obtain s' new fl' where r:
      "save_uploads cid folder us s saved (fl @ [FileRejected original]) =
         Inr (s', saved @ new, (fl @ [FileRejected original]) @ fl')"
      "dirs s' = dirs s"
      "\<forall>p d. map_of (files s) p = Some d \<longrightarrow> map_of (files s') p = Some d"
      "\<forall>p. path_exists s p \<longrightarrow> path_exists s' p"
      "distinct (map sf_name new)"
      "\<forall>f\<in>set new. \<not> path_exists s (os_path_join folder (sf_name f)) \<and>
                    path_exists s' (os_path_join folder (sf_name f))"
      using Cons.IH[of s saved "fl @ [FileRejected original]"] by blast
    show ?thesis
      unfolding save_uploads_reject[OF reject]
      using r by (intro exI[of _ s'] exI[of _ new] exI[of _ "FileRejected original # fl'"]) simp
  next
    case accept
    let ?u = "unique_filename s folder (secure_filename original)"
    let ?p = "os_path_join folder ?u"
    let ?s1 = "s\<lparr>files := AList.update ?p (content f) (files s)\<rparr>"
    let ?sf = "\<lparr>sf_name = ?u, sf_url = url_for_uploaded_file cid ?u,
                sf_ext = py_lower (after_last_dot (secure_filename original))\<rparr>"
    have free: "\<not> path_exists s ?p"
      unfolding unique_filename_loop by (rule unique_loop_free)
    obtain s' new fl' where r:
      "save_uploads cid folder us ?s1 (saved @ [?sf]) fl = Inr (s', (saved @ [?sf]) @ new, fl @ fl')"
      "dirs s' = dirs ?s1"
      "\<forall>p d. map_of (files ?s1) p = Some d \<longrightarrow> map_of (files s') p = Some d"
      "\<forall>p. path_exists ?s1 p \<longrightarrow> path_exists s' p"
      "distinct (map sf_name new)"
      "\<forall>f\<in>set new. \<not> path_exists ?s1 (os_path_join folder (sf_name f)) \<and>
                    path_exists s' (os_path_join folder (sf_name f))"
      using Cons.IH[of ?s1 "saved @ [?sf]" fl] by blast
    have mono: "\<forall>p. path_exists s p \<longrightarrow> path_exists s' p"
      using r(4) by (simp add: path_exists_update)
    have keep: "\<forall>p d. map_of (files s) p = Some d \<longrightarrow> map_of (files s') p = Some d"
    proof (intro allI impI)
      fix p d assume m: "map_of (files s) p = Some d"
      then have "p \<noteq> ?p" using free map_of_Some_exists by blast
      then have "map_of (files ?s1) p = Some d"
        using m by (simp add: update_conv')
      then show "map_of (files s') p = Some d" using r(3) by blast
    qed
    have u_new: "?u \<notin> sf_name ` set new"
    proof
      assume "?u \<in> sf_name ` set new"
      then obtain g where g: "g \<in> set new" "sf_name g = ?u" by auto
      then have "\<not> path_exists ?s1 ?p" using r(6) by auto
      then show False by (simp add: path_exists_update)
    qed
    have u_exists: "path_exists s' ?p"
      using r(4) by (simp add: path_exists_update)
    have names: "\<forall>f\<in>set (?sf # new). \<not> path_exists s (os_path_join folder (sf_name f)) \<and>
                    path_exists s' (os_path_join folder (sf_name f))"
      using r(6) free u_exists by (auto simp: path_exists_update)
    have dist: "distinct (map sf_name (?sf # new))"
      using r(5) u_new by simp
    show ?thesis
      unfolding save_uploads_accept[OF accept]
      using r(1,2) keep mono dist names
      by (intro exI[of _ s'] exI[of _ "?sf # new"] exI[of _ fl']) simp
  qed
qed

lemma split_ext_base_ext:
  assumes "CHR ''.'' \<notin> set ext"
  shows "split_ext (base @ CHR ''.'' # ext) = (base, ext)"
proof -
  let ?s = "base @ CHR ''.'' # ext"
  have d: "CHR ''.'' \<in> set ?s" by simp
  have e: "after_last_dot ?s = ext"
    by (rule after_last_dot_append[OF assms])
  have "?s = fst (rpartition_dot ?s) @ CHR ''.'' # after_last_dot ?s"
    by (rule rpartition_dot_split[OF d])
  then have "fst (rpartition_dot ?s) = base"
    unfolding e by simp
  then show ?thesis
    using split_ext_dot[OF d] e by simp
qed

text \<open>
  Claim C5. \<^const>\<open>unique_filename\<close> returns a name that does not exist in the folder:
  the sanitized name itself when it is free, otherwise the name with \<open>_j\<close> inserted before
  the extension for the least \<open>j\<close> from 2 on whose name is free. Ingestion
  (\<^const>\<open>save_uploads\<close>) always completes, the files it stores have pairwise distinct
  names, and every file that existed before keeps its content: nothing is overwritten.
\<close>

theorem unique_filename_no_overwrite:
  "\<not> path_exists s (os_path_join folder (unique_filename s folder fname)) \<and>
   (\<not> path_exists s (os_path_join folder fname) \<longrightarrow> unique_filename s folder fname = fname) \<and>
   (path_exists s (os_path_join folder fname) \<longrightarrow>
      (\<exists>j\<ge>2. unique_filename s folder fname =
                 numbered (fst (split_ext fname)) (snd (split_ext fname)) j \<and>
              (\<forall>k. 2 \<le> k \<and> k < j \<longrightarrow>
                 path_exists s (os_path_join folder
                                 (numbered (fst (split_ext fname)) (snd (split_ext fname)) k))))) \<and>
   (CHR ''.'' \<notin> set ext \<and> ext \<noteq> [] \<longrightarrow>
      split_ext (base @ ''.'' @ ext) = (base, ext) \<and>
      numbered base ext i = base @ ''_'' @ py_str_nat i @ ''.'' @ ext) \<and>
   (\<exists>s' stored flashes.
      save_uploads cid folder us s [] [] = Inr (s', stored, flashes) \<and>
      distinct (map sf_name stored) \<and>
      (\<forall>p d. map_of (files s) p = Some d \<longrightarrow> map_of (files s') p = Some d))"
proof (intro conjI)
  show "\<not> path_exists s (os_path_join folder (unique_filename s folder fname))"
    unfolding unique_filename_loop by (rule unique_loop_free)
  show "\<not> path_exists s (os_path_join folder fname) \<longrightarrow> unique_filename s folder fname = fname"
    unfolding unique_filename_loop
    using unique_loop_result[of s folder fname "fst (split_ext fname)" "snd (split_ext fname)" 2]
    by blast
  show "path_exists s (os_path_join folder fname) \<longrightarrow>
      (\<exists>j\<ge>2. unique_filename s folder fname =
                 numbered (fst (split_ext fname)) (snd (split_ext fname)) j \<and>
              (\<forall>k. 2 \<le> k \<and> k < j \<longrightarrow>
                 path_exists s (os_path_join folder
                                 (numbered (fst (split_ext fname)) (snd (split_ext fname)) k))))"
    unfolding unique_filename_loop
    using unique_loop_result[of s folder fname "fst (split_ext fname)" "snd (split_ext fname)" 2]
    by blast
  show "CHR ''.'' \<notin> set ext \<and> ext \<noteq> [] \<longrightarrow>
      split_ext (base @ ''.'' @ ext) = (base, ext) \<and>
      numbered base ext i = base @ ''_'' @ py_str_nat i @ ''.'' @ ext"
    using split_ext_base_ext[of ext base] by (simp add: numbered_def)
  show "\<exists>s' stored flashes.
      save_uploads cid folder us s [] [] = Inr (s', stored, flashes) \<and>
      distinct (map sf_name stored) \<and>
      (\<forall>p d. map_of (files s) p = Some d \<longrightarrow> map_of (files s') p = Some d)"
    using save_uploads_invariant[of cid folder us s "[]" "[]"] by auto
qed

lemma example_two_uploads:
  "save_uploads ''0123456789'' ''/var/data/uploads/0123456789''
     [\<lparr>filename = Some ''a.png'', content = ''PNG1''\<rparr>,
      \<lparr>filename = Some ''a.png'', content = ''PNG2''\<rparr>] card_dir_fs [] [] =
   Inr (\<lparr>files = [(''/var/data/uploads/0123456789/a.png'', ''PNG1''),
                   (''/var/data/uploads/0123456789/a_2.png'', ''PNG2'')],
          dirs = [''/var/data/uploads/0123456789'', ''/var/data'', ''/var/data/uploads'']\<rparr>,
        [\<lparr>sf_name = ''a.png'', sf_url = ''/uploads/0123456789/a.png'', sf_ext = ''png''\<rparr>,
         \<lparr>sf_name = ''a_2.png'', sf_url = ''/uploads/0123456789/a_2.png'', sf_ext = ''png''\<rparr>],
        [])"
  by code_simp

theorem unique_filename_no_overwrite_witness:
  "path_exists one_file_fs (os_path_join example_card_folder ''a.png'') \<and>
   unique_filename one_file_fs example_card_folder ''a.png'' = ''a_2.png'' \<and>
   \<not> path_exists one_file_fs (os_path_join example_card_folder ''a_2.png'') \<and>
   CHR ''.'' \<notin> set ''png'' \<and>
   numbered ''a'' ''png'' 2 = ''a_2.png'' \<and>
   (\<exists>s' flashes.
      save_uploads ''0123456789'' example_card_folder
        [\<lparr>filename = Some ''a.png'', content = ''PNG1''\<rparr>,
         \<lparr>filename = Some ''a.png'', content = ''PNG2''\<rparr>] card_dir_fs [] [] =
      Inr (s',
        [\<lparr>sf_name = ''a.png'', sf_url = ''/uploads/0123456789/a.png'', sf_ext = ''png''\<rparr>,
         \<lparr>sf_name = ''a_2.png'', sf_url = ''/uploads/0123456789/a_2.png'', sf_ext = ''png''\<rparr>],
        flashes))"
proof -
  have a: "path_exists one_file_fs (os_path_join example_card_folder ''a.png'')"
    by code_simp
  have b: "unique_filename one_file_fs example_card_folder ''a.png'' = ''a_2.png''"
    by code_simp
  have c: "numbered ''a'' ''png'' 2 = ''a_2.png''"
    by code_simp
  have n: "\<not> path_exists one_file_fs (os_path_join example_card_folder ''a_2.png'')"
    using unique_filename_no_overwrite[of one_file_fs example_card_folder "''a.png''" "''png''"
        "''a''" 2 "''0123456789''" "[]"]
    unfolding b by blast
  have e: "\<exists>s' flashes.
      save_uploads ''0123456789'' example_card_folder
        [\<lparr>filename = Some ''a.png'', content = ''PNG1''\<rparr>,
         \<lparr>filename = Some ''a.png'', content = ''PNG2''\<rparr>] card_dir_fs [] [] =
      Inr (s',
        [\<lparr>sf_name = ''a.png'', sf_url = ''/uploads/0123456789/a.png'', sf_ext = ''png''\<rparr>,
         \<lparr>sf_name = ''a_2.png'', sf_url = ''/uploads/0123456789/a_2.png'', sf_ext = ''png''\<rparr>],
        flashes)"
    unfolding example_card_folder_def using example_two_uploads by blast
  have f: "CHR ''.'' \<notin> set ''png''" by simp
  from a b n f c e show ?thesis by blast
qed

text \<open>
  Claim C6. The extension check looks at the text after the last dot, case-folded: a name
  with no dot is refused, and \<open>base.ext\<close> is allowed exactly when the lowercase of
  \<open>ext\<close> is in the allow-list. During ingestion a named upload whose sanitized name is not
  allowed is reported and skipped and the batch goes on; an allowed one is stored, and the
  \<open>ext\<close> recorded for it is the lowercase extension of the sanitized name, a member of the
  allow-list. So \<open>evil.exe\<close> is refused, \<open>photo.JPG\<close> is allowed, and its recorded
  extension is \<open>jpg\<close>.
\<close>

theorem extension_check_case_insensitive:
  "(CHR ''.'' \<notin> set fname \<longrightarrow> \<not> allowed_file fname) \<and>
   (CHR ''.'' \<notin> set ext \<longrightarrow>
      allowed_file (base @ ''.'' @ ext) = (py_lower ext \<in> ALLOWED_EXTENSIONS)) \<and>
   (filename f = Some original \<and> original \<noteq> [] \<and> secure_filename original \<noteq> [] \<and>
    \<not> allowed_file (secure_filename original) \<longrightarrow>
      save_uploads cid folder (f # fs) s saved fl =
        save_uploads cid folder fs s saved (fl @ [FileRejected original])) \<and>
   (filename f = Some original \<and> original \<noteq> [] \<and> allowed_file (secure_filename original) \<longrightarrow>
      (\<exists>u s1. save_uploads cid folder (f # fs) s saved fl =
                save_uploads cid folder fs s1
                  (saved @ [\<lparr>sf_name = u, sf_url = url_for_uploaded_file cid u,
                             sf_ext = py_lower (after_last_dot (secure_filename original))\<rparr>]) fl) \<and>
      py_lower (after_last_dot (secure_filename original)) \<in> ALLOWED_EXTENSIONS) \<and>
   \<not> allowed_file (secure_filename ''evil.exe'') \<and>
   allowed_file (secure_filename ''photo.JPG'') \<and>
   py_lower (after_last_dot (secure_filename ''photo.JPG'')) = ''jpg''"
proof (intro conjI impI)
  show "CHR ''.'' \<notin> set fname \<Longrightarrow> \<not> allowed_file fname"
    by (simp add: allowed_file_def)
  show "CHR ''.'' \<notin> set ext \<Longrightarrow>
      allowed_file (base @ ''.'' @ ext) = (py_lower ext \<in> ALLOWED_EXTENSIONS)"
    using after_last_dot_append[of ext base] by (simp add: allowed_file_def)
  show "filename f = Some original \<and> original \<noteq> [] \<and> secure_filename original \<noteq> [] \<and>
    \<not> allowed_file (secure_filename original) \<Longrightarrow>
      save_uploads cid folder (f # fs) s saved fl =
        save_uploads cid folder fs s saved (fl @ [FileRejected original])"
    using save_uploads_reject[of f original cid folder fs s saved fl] by blast
  show "filename f = Some original \<and> original \<noteq> [] \<and> allowed_file (secure_filename original) \<Longrightarrow>
      \<exists>u s1. save_uploads cid folder (f # fs) s saved fl =
                save_uploads cid folder fs s1
                  (saved @ [\<lparr>sf_name = u, sf_url = url_for_uploaded_file cid u,
                             sf_ext = py_lower (after_last_dot (secure_filename original))\<rparr>]) fl"
    using save_uploads_accept[of f original cid folder fs s saved fl] by blast
  show "filename f = Some original \<and> original \<noteq> [] \<and> allowed_file (secure_filename original) \<Longrightarrow>
      py_lower (after_last_dot (secure_filename original)) \<in> ALLOWED_EXTENSIONS"
    by (auto simp: allowed_file_def split: if_splits)
  show "\<not> allowed_file (secure_filename ''evil.exe'')" by code_simp
  show "allowed_file (secure_filename ''photo.JPG'')" by code_simp
  show "py_lower (after_last_dot (secure_filename ''photo.JPG'')) = ''jpg''" by code_simp
qed

lemma example_mixed_uploads:
  "save_uploads ''0123456789'' ''/var/data/uploads/0123456789''
     [\<lparr>filename = Some ''evil.exe'', content = ''MZ''\<rparr>,
      \<lparr>filename = Some ''photo.JPG'', content = ''JFIF''\<rparr>] card_dir_fs [] [] =
   Inr (\<lparr>files = [(''/var/data/uploads/0123456789/photo.JPG'', ''JFIF'')],
          dirs = [''/var/data/uploads/0123456789'', ''/var/data'', ''/var/data/uploads'']\<rparr>,
        [\<lparr>sf_name = ''photo.JPG'', sf_url = ''/uploads/0123456789/photo.JPG'', sf_ext = ''jpg''\<rparr>],
        [FileRejected ''evil.exe''])"
  by code_simp

theorem extension_check_case_insensitive_witness:
  "CHR ''.'' \<notin> set ''noext'' \<and> \<not> allowed_file ''noext'' \<and>
   CHR ''.'' \<notin> set ''JPG'' \<and> allowed_file (''photo'' @ ''.'' @ ''JPG'') \<and>
   secure_filename ''evil.exe'' \<noteq> [] \<and> \<not> allowed_file (secure_filename ''evil.exe'') \<and>
   save_uploads ''0123456789'' ''/var/data/uploads/0123456789''
     [\<lparr>filename = Some ''evil.exe'', content = ''MZ''\<rparr>,
      \<lparr>filename = Some ''photo.JPG'', content = ''JFIF''\<rparr>] card_dir_fs [] [] =
   Inr (\<lparr>files = [(''/var/data/uploads/0123456789/photo.JPG'', ''JFIF'')],
          dirs = [''/var/data/uploads/0123456789'', ''/var/data'', ''/var/data/uploads'']\<rparr>,
        [\<lparr>sf_name = ''photo.JPG'', sf_url = ''/uploads/0123456789/photo.JPG'', sf_ext = ''jpg''\<rparr>],
        [FileRejected ''evil.exe''])"
proof -
  have a: "secure_filename ''evil.exe'' \<noteq> []" by code_simp
  have b: "py_lower ''JPG'' \<in> ALLOWED_EXTENSIONS" by code_simp
  note t = extension_check_case_insensitive[of "''noext''" "''JPG''" "''photo''"
        "\<lparr>filename = Some ''evil.exe'', content = ''MZ''\<rparr>" "''evil.exe''"
        "''0123456789''" "''/var/data/uploads/0123456789''"
        "[\<lparr>filename = Some ''photo.JPG'', content = ''JFIF''\<rparr>]" card_dir_fs "[]" "[]"]
  have c: "CHR ''.'' \<notin> set ''noext''" "CHR ''.'' \<notin> set ''JPG''" by simp_all
  have d: "\<not> allowed_file ''noext''" using t c(1) by blast
  have e: "allowed_file (''photo'' @ ''.'' @ ''JPG'')" using t c(2) b by blast
  have g: "\<not> allowed_file (secure_filename ''evil.exe'')" using t by blast
  from c d e a g example_mixed_uploads show ?thesis by blast
qed

subsection \<open>Validation of the title\<close>

text \<open>
  Claim C9. A publish request whose title is missing, empty or blank is turned down before
  anything touches the disk: \<^const>\<open>admin_new\<close> answers with the redirect back to the
  form and the one validation message, and the file system it returns is the one it was
  given. No card directory, no upload and no log line has been written, and
  \<^const>\<open>load_cards\<close> returns what it returned before.
\<close>

theorem admin_new_empty_title_no_effect:
  assumes "is_post req"
    and "strip (case form_title req of None \<Rightarrow> [] | Some t \<Rightarrow> t) = []"
  shows "admin_new a uuid_hex utcnow req s = Inr (RedirectAdminNew, [TitleRequired], s) \<and>
         (\<forall>r fl s'. admin_new a uuid_hex utcnow req s = Inr (r, fl, s') \<longrightarrow>
            files s' = files s \<and> dirs s' = dirs s \<and> load_cards a s' = load_cards a s)"
  using assms by (simp add: admin_new_def Let_def)

theorem admin_new_empty_title_no_effect_witness:
  "strip (case Some [CHR '' '', TAB, CHR '' ''] of None \<Rightarrow> [] | Some t \<Rightarrow> t) = [] \<and>
   admin_new default_app ''0123456789abcdef0123456789abcdef'' ''2024-01-01T00:00:00''
     \<lparr>is_post = True, form_title = Some [CHR '' '', TAB, CHR '' ''],
      form_description = Some ''text'',
      form_files = [\<lparr>filename = Some ''a.png'', content = ''PNG1''\<rparr>]\<rparr> fresh_fs =
   Inr (RedirectAdminNew, [TitleRequired], fresh_fs)"
proof -
  have b: "strip (case Some [CHR '' '', TAB, CHR '' ''] of None \<Rightarrow> [] | Some t \<Rightarrow> t) = []"
    by code_simp
  have p: "is_post \<lparr>is_post = True, form_title = Some [CHR '' '', TAB, CHR '' ''],
      form_description = Some ''text'',
      form_files = [\<lparr>filename = Some ''a.png'', content = ''PNG1''\<rparr>]\<rparr>"
    by simp
  have t: "strip (case form_title \<lparr>is_post = True, form_title = Some [CHR '' '', TAB, CHR '' ''],
      form_description = Some ''text'',
      form_files = [\<lparr>filename = Some ''a.png'', content = ''PNG1''\<rparr>]\<rparr> of None \<Rightarrow> [] | Some t \<Rightarrow> t) = []"
    using b by simp
  from admin_new_empty_title_no_effect[OF p t, of default_app
      "''0123456789abcdef0123456789abcdef''" "''2024-01-01T00:00:00''" fresh_fs] b
  show ?thesis by blast
qed

subsection \<open>Uploads without a name\<close>

text \<open>
  Claim C7, as stated, fails. The loop tests the file name only
  (\<^verbatim>\<open>if not f or not getattr(f, "filename", "")\<close>) and never looks at the content:
  an upload named \<open>a.png\<close> with empty content is not skipped. It is written to the card
  folder as an empty file and a stored-file record is produced for it.
\<close>

theorem empty_content_upload_is_stored:
  "save_uploads ''0123456789'' ''/var/data/uploads/0123456789''
     [\<lparr>filename = Some ''a.png'', content = []\<rparr>] card_dir_fs [] [] =
   Inr (\<lparr>files = [(''/var/data/uploads/0123456789/a.png'', [])],
          dirs = [''/var/data/uploads/0123456789'', ''/var/data'', ''/var/data/uploads'']\<rparr>,
        [\<lparr>sf_name = ''a.png'', sf_url = ''/uploads/0123456789/a.png'', sf_ext = ''png''\<rparr>],
        []) \<and>
   save_uploads ''0123456789'' ''/var/data/uploads/0123456789''
     [\<lparr>filename = Some ''a.png'', content = []\<rparr>] card_dir_fs [] [] \<noteq>
   Inr (card_dir_fs, [], [])"
proof -
  have a: "save_uploads ''0123456789'' ''/var/data/uploads/0123456789''
     [\<lparr>filename = Some ''a.png'', content = []\<rparr>] card_dir_fs [] [] =
   Inr (\<lparr>files = [(''/var/data/uploads/0123456789/a.png'', [])],
          dirs = [''/var/data/uploads/0123456789'', ''/var/data'', ''/var/data/uploads'']\<rparr>,
        [\<lparr>sf_name = ''a.png'', sf_url = ''/uploads/0123456789/a.png'', sf_ext = ''png''\<rparr>],
        [])"
    by code_simp
  show ?thesis
    unfolding a by simp
qed

text \<open>
  Claim C7, amended. During ingestion every upload with no file name (the name is absent
  or empty) is skipped whatever its content, and so is every upload whose sanitized name is
  empty: no file is written, no stored-file record and no message is produced, and the loop
  goes on with the remaining uploads. Empty content alone does not make the loop skip an
  upload: whether an upload is skipped depends on its name only.
\<close>

theorem unnamed_uploads_are_skipped:
  "(filename f = None \<or> filename f = Some [] \<longrightarrow>
      save_uploads cid folder (f # fs) s saved fl = save_uploads cid folder fs s saved fl) \<and>
   (filename f = Some original \<and> secure_filename original = [] \<longrightarrow>
      save_uploads cid folder (f # fs) s saved fl = save_uploads cid folder fs s saved fl) \<and>
   (filename f = None \<or> filename f = Some [] \<or>
    (\<exists>original. filename f = Some original \<and> secure_filename original = []) \<longrightarrow>
      save_uploads cid folder (f\<lparr>content := bytes\<rparr> # fs) s saved fl =
        save_uploads cid folder fs s saved fl)"
proof (intro conjI impI)
  assume "filename f = None \<or> filename f = Some []"
  then show "save_uploads cid folder (f # fs) s saved fl = save_uploads cid folder fs s saved fl"
    by (intro save_uploads_skip) blast
next
  assume "filename f = Some original \<and> secure_filename original = []"
  then show "save_uploads cid folder (f # fs) s saved fl = save_uploads cid folder fs s saved fl"
    by (intro save_uploads_skip) blast
next
  assume "filename f = None \<or> filename f = Some [] \<or>
    (\<exists>original. filename f = Some original \<and> secure_filename original = [])"
  then have "filename (f\<lparr>content := bytes\<rparr>) = None \<or> filename (f\<lparr>content := bytes\<rparr>) = Some [] \<or>
    (\<exists>original. filename (f\<lparr>content := bytes\<rparr>) = Some original \<and> secure_filename original = [])"
    by simp
  then show "save_uploads cid folder (f\<lparr>content := bytes\<rparr> # fs) s saved fl =
        save_uploads cid folder fs s saved fl"
    by (rule save_uploads_skip)
qed

lemma example_skipped_uploads:
  "secure_filename ''../..'' = []"
  "save_uploads ''0123456789'' ''/var/data/uploads/0123456789''
     [\<lparr>filename = Some ''photo.JPG'', content = ''JFIF''\<rparr>] card_dir_fs [] [] =
   Inr (\<lparr>files = [(''/var/data/uploads/0123456789/photo.JPG'', ''JFIF'')],
          dirs = [''/var/data/uploads/0123456789'', ''/var/data'', ''/var/data/uploads'']\<rparr>,
        [\<lparr>sf_name = ''photo.JPG'', sf_url = ''/uploads/0123456789/photo.JPG'', sf_ext = ''jpg''\<rparr>],
        [])"
  by code_simp+

theorem unnamed_uploads_are_skipped_witness:
  "secure_filename ''../..'' = [] \<and>
   save_uploads ''0123456789'' ''/var/data/uploads/0123456789''
     [\<lparr>filename = None, content = ''data''\<rparr>,
      \<lparr>filename = Some ''../..'', content = ''data''\<rparr>,
      \<lparr>filename = Some ''photo.JPG'', content = ''JFIF''\<rparr>] card_dir_fs [] [] =
   Inr (\<lparr>files = [(''/var/data/uploads/0123456789/photo.JPG'', ''JFIF'')],
          dirs = [''/var/data/uploads/0123456789'', ''/var/data'', ''/var/data/uploads'']\<rparr>,
        [\<lparr>sf_name = ''photo.JPG'', sf_url = ''/uploads/0123456789/photo.JPG'', sf_ext = ''jpg''\<rparr>],
        [])"
proof -
  let ?rest = "[\<lparr>filename = Some ''photo.JPG'', content = ''JFIF''\<rparr>]"
  note e = example_skipped_uploads
  have one: "save_uploads ''0123456789'' ''/var/data/uploads/0123456789''
               (\<lparr>filename = None, content = ''data''\<rparr> #
                \<lparr>filename = Some ''../..'', content = ''data''\<rparr> # ?rest) card_dir_fs [] [] =
             save_uploads ''0123456789'' ''/var/data/uploads/0123456789''
               (\<lparr>filename = Some ''../..'', content = ''data''\<rparr> # ?rest) card_dir_fs [] []"
    using unnamed_uploads_are_skipped[where f = "\<lparr>filename = None, content = ''data''\<rparr>"
        and cid = "''0123456789''" and folder = "''/var/data/uploads/0123456789''"
        and fs = "\<lparr>filename = Some ''../..'', content = ''data''\<rparr> # ?rest"
        and s = card_dir_fs and saved = "[]" and fl = "[]"]
    by simp
  have two: "save_uploads ''0123456789'' ''/var/data/uploads/0123456789''
               (\<lparr>filename = Some ''../..'', content = ''data''\<rparr> # ?rest) card_dir_fs [] [] =
             save_uploads ''0123456789'' ''/var/data/uploads/0123456789'' ?rest card_dir_fs [] []"
    using unnamed_uploads_are_skipped[where f = "\<lparr>filename = Some ''../..'', content = ''data''\<rparr>"
        and original = "''../..''" and cid = "''0123456789''"
        and folder = "''/var/data/uploads/0123456789''" and fs = ?rest
        and s = card_dir_fs and saved = "[]" and fl = "[]"]
      e(1)
    by simp
  show ?thesis
    using e(1) unfolding one two e(2) by simp
qed

end
